theory Spec2Isabelle
  imports Main "HOL-Library.Word" "HOL-Library.Multiset"
begin

unbundle bit_operations_syntax

section \<open>Common types of the three contracts\<close>

text \<open>
  An account address is a 160-bit value that the contracts compare as an unsigned integer
  (\<^verbatim>\<open>uint160(a) > uint160(b)\<close>); \<open>0\<close> is \<^verbatim>\<open>address(0)\<close>. A \<^verbatim>\<open>bytes32\<close> is read as a
  number as well. \<^verbatim>\<open>uint256\<close>, \<^verbatim>\<open>uint64\<close> and \<^verbatim>\<open>uint32\<close> values are natural numbers; Solidity 0.8
  aborts a call whose checked arithmetic leaves the range, which the model writes out with
  \<open>checked\<close> (the error \<open>Panic\<close>). The 16-bit bitmaps are \<open>16 word\<close>.

  The two hashes that key the oracle's storage are modelled by their preimages (keccak256 taken
  as collision free, and no preimage hashing to zero): a claim key is the pair of producer id and
  hour id (tag and oracle address are constants of one oracle), a value hash is the pair of energy
  and evidence root, and the zero \<^verbatim>\<open>bytes32\<close> of an unset value hash is \<open>None\<close>.
\<close>

type_synonym address = nat
type_synonym bytes32 = nat
type_synonym claimKey = "bytes32 \<times> nat"
type_synonym valueHash = "nat \<times> bytes32"

datatype error =
    Panic
  | OnlyAuthorizedOracle
  | OnlyProductionOracle
  | OwnableUnauthorizedAccount
  | ERC1155InvalidReceiver
  | ProducerNotFound
  | VerifierNotAllowlisted
  | VerifierAlreadyActive
  | VerifierNotActive
  | InsufficientStake
  | InsufficientStakeBalance
  | ZeroAmount
  | SnapshotAlreadyExists
  | VerifierNotInSnapshot
  | NoActiveVerifiers
  | InsufficientRewardPool
  | FaultThresholdNotReached
  | AlreadySlashed
  | ClaimAlreadyFinalized
  | ClaimDeadlineNotReached
  | ClaimDeadlinePassed
  | DuplicateSubmission
  | InvalidSignature
  | ProducerNotRegistered
  | ClaimNotDisputed
  | EnergyExceedsMaxSubmitted
  | EvidenceRootNotSubmitted

datatype FaultType = WrongValue | InvalidSignatureFault | DuplicateSubmissionFault | LateSubmission | MalformedClaim

datatype event =
    ProductionSubmitted claimKey address nat valueHash
  | ProductionFinalized claimKey bytes32 nat nat bytes32
  | ClaimDisputed claimKey bytes32 nat string
  | ForceFinalized claimKey address nat
  | SnapshotCreated claimKey nat nat
  | VerifierActivated address
  | RewardsDistributed "16 word" nat nat
  | FaultRecorded address FaultType nat
  | Slashed address nat
  | HCNMinted nat address nat claimKey

definition checked :: "nat \<Rightarrow> nat \<Rightarrow> error + nat" where
  \<comment> \<open>the result \<open>n\<close> of a checked operation on a \<open>bits\<close>-bit unsigned integer\<close>
  "checked bits n = (if n < 2 ^ bits then Inr n else Inl Panic)"

definition checked_sub :: "nat \<Rightarrow> nat \<Rightarrow> error + nat" where
  "checked_sub a b = (if b \<le> a then Inr (a - b) else Inl Panic)"

section \<open>Registry\<close>

record Verifier =
  stake :: nat
  faults :: nat
  active :: bool
  allowlisted :: bool

record Producer =
  producerId :: bytes32
  systemIdHash :: bytes32
  metaHash :: bytes32
  payoutAddr :: address
  owner :: address
  producerActive :: bool

record Snapshot =
  verifiers :: "address list"
  timestamp :: nat

record Registry =
  r_producers :: "bytes32 \<Rightarrow> Producer"
  r_verifiers :: "address \<Rightarrow> Verifier"
  activeVerifiers :: "address list"
  activeVerifierIndex :: "address \<Rightarrow> nat"
  claimKeyToSnapshotId :: "claimKey \<Rightarrow> nat"
  snapshots :: "nat \<Rightarrow> Snapshot"
  nextSnapshotId :: nat
  r_productionOracle :: address
  r_consumptionOracle :: address
  minStake :: nat
  permissionedMode :: bool
  r_events :: "event list"

definition getProducer :: "bytes32 \<Rightarrow> Registry \<Rightarrow> error + Producer" where
  "getProducer pid r =
     (if owner (r_producers r pid) = 0 then Inl ProducerNotFound else Inr (r_producers r pid))"

definition getVerifier :: "address \<Rightarrow> Registry \<Rightarrow> Verifier" where
  "getVerifier verifier r = r_verifiers r verifier"

definition activateVerifier :: "address \<Rightarrow> Registry \<Rightarrow> error + Registry" where
  "activateVerifier sender r =
     (let verifier = r_verifiers r sender in
      if active verifier then Inl VerifierAlreadyActive
      else if permissionedMode r \<and> \<not> allowlisted verifier then Inl VerifierNotAllowlisted
      else if stake verifier < minStake r then Inl InsufficientStake
      else Inr (r\<lparr> r_verifiers := (r_verifiers r)(sender := verifier\<lparr>active := True\<rparr>),
                   activeVerifiers := activeVerifiers r @ [sender],
                   activeVerifierIndex :=
                     (activeVerifierIndex r)(sender := length (activeVerifiers r) + 1),
                   r_events := r_events r @ [VerifierActivated sender] \<rparr>))"

text \<open>
  \<^verbatim>\<open>_sortAddresses\<close>: the array is copied and sorted in place by two nested index loops; the
  inner loop swaps positions \<open>i\<close> and \<open>j\<close> whenever the element at \<open>i\<close> is the larger one.
\<close>

function sortInner :: "nat \<Rightarrow> nat \<Rightarrow> address list \<Rightarrow> address list" where
  "sortInner i j arr =
     (if j < length arr
      then sortInner i (j + 1)
             (if arr ! i > arr ! j
              then (let temp = arr ! i in (arr[i := arr ! j])[j := temp])
              else arr)
      else arr)"
  by pat_completeness auto
termination
  by (relation "measure (\<lambda>(i, j, arr). length arr - j)") (auto simp: Let_def)

declare sortInner.simps [simp del]

lemma length_sortInner [simp]: "length (sortInner i j arr) = length arr"
proof (induction i j arr rule: sortInner.induct)
  case (1 i j arr)
  show ?case
  proof (cases "j < length arr")
    case True
    with "1" show ?thesis
      by (subst sortInner.simps) (simp add: Let_def)
  next
    case False
    then show ?thesis
      by (subst sortInner.simps) simp
  qed
qed

function sortOuter :: "nat \<Rightarrow> address list \<Rightarrow> address list" where
  "sortOuter i arr =
     (if i < length arr then sortOuter (i + 1) (sortInner i (i + 1) arr) else arr)"
  by pat_completeness auto
termination
  by (relation "measure (\<lambda>(i, arr). length arr - i)") auto

declare sortOuter.simps [simp del]

definition sortAddresses :: "address list \<Rightarrow> address list" where
  "sortAddresses arr = sortOuter 0 arr"

definition createSnapshot :: "address \<Rightarrow> claimKey \<Rightarrow> nat \<Rightarrow> Registry \<Rightarrow> error + (nat \<times> Registry)" where
  \<comment> \<open>\<open>sender\<close> is \<^verbatim>\<open>msg.sender\<close>, \<open>now\<close> is \<^verbatim>\<open>block.timestamp\<close>\<close>
  "createSnapshot sender claimKey now r =
     (if sender \<noteq> r_productionOracle r \<and> sender \<noteq> r_consumptionOracle r
      then Inl OnlyAuthorizedOracle
      else if claimKeyToSnapshotId r claimKey \<noteq> 0 then Inl SnapshotAlreadyExists
      else if length (activeVerifiers r) = 0 then Inl NoActiveVerifiers
      else (case checked 256 (nextSnapshotId r + 1) of
        Inl e \<Rightarrow> Inl e
      | Inr next \<Rightarrow>
          (let snapshotId = nextSnapshotId r;
               sortedVerifiers = sortAddresses (activeVerifiers r)
           in Inr (snapshotId,
                r\<lparr> nextSnapshotId := next,
                   snapshots := (snapshots r)
                     (snapshotId := \<lparr>verifiers = sortedVerifiers, timestamp = now\<rparr>),
                   claimKeyToSnapshotId := (claimKeyToSnapshotId r)(claimKey := snapshotId),
                   r_events := r_events r
                     @ [SnapshotCreated claimKey snapshotId (length sortedVerifiers)] \<rparr>))))"

definition getSnapshotCount :: "nat \<Rightarrow> Registry \<Rightarrow> nat" where
  "getSnapshotCount snapshotId r = length (verifiers (snapshots r snapshotId))"

definition getSnapshotVerifiers :: "nat \<Rightarrow> Registry \<Rightarrow> address list" where
  "getSnapshotVerifiers snapshotId r = verifiers (snapshots r snapshotId)"

function verifierIndexLoop :: "nat \<Rightarrow> address list \<Rightarrow> address \<Rightarrow> error + nat" where
  \<comment> \<open>the result is \<^verbatim>\<open>uint8(i)\<close>: an explicit conversion, which truncates\<close>
  "verifierIndexLoop i vs verifier =
     (if i < length vs
      then (if vs ! i = verifier then Inr (i mod 256) else verifierIndexLoop (i + 1) vs verifier)
      else Inl VerifierNotInSnapshot)"
  by pat_completeness auto
termination
  by (relation "measure (\<lambda>(i, vs, verifier). length vs - i)") auto

declare verifierIndexLoop.simps [simp del]

definition getVerifierIndex :: "nat \<Rightarrow> address \<Rightarrow> Registry \<Rightarrow> error + nat" where
  "getVerifierIndex snapshotId verifier r =
     verifierIndexLoop 0 (verifiers (snapshots r snapshotId)) verifier"

definition incrementFaults :: "address \<Rightarrow> Registry \<Rightarrow> error + Registry" where
  "incrementFaults verifier r =
     (case checked 256 (faults (r_verifiers r verifier) + 1) of
        Inl e \<Rightarrow> Inl e
      | Inr n \<Rightarrow> Inr (r\<lparr> r_verifiers := (r_verifiers r)
                          (verifier := (r_verifiers r verifier)\<lparr>faults := n\<rparr>) \<rparr>))"

definition reduceStake :: "address \<Rightarrow> nat \<Rightarrow> Registry \<Rightarrow> error + Registry" where
  \<comment> \<open>no access control in the source: any caller; \<^verbatim>\<open>stake -= amount\<close> is a checked subtraction\<close>
  "reduceStake verifier amount r =
     (if stake (r_verifiers r verifier) \<ge> amount
      then (case checked_sub (stake (r_verifiers r verifier)) amount of
              Inl e \<Rightarrow> Inl e
            | Inr s \<Rightarrow> Inr (r\<lparr> r_verifiers := (r_verifiers r)
                                (verifier := (r_verifiers r verifier)\<lparr>stake := s\<rparr>) \<rparr>))
      else Inr (r\<lparr> r_verifiers := (r_verifiers r)
                     (verifier := (r_verifiers r verifier)\<lparr>stake := 0\<rparr>) \<rparr>))"

fun reduceStakes :: "(address \<times> nat) list \<Rightarrow> Registry \<Rightarrow> error + Registry" where
  \<comment> \<open>a sequence of \<open>reduceStake\<close> calls, stopping at the first one that fails\<close>
  "reduceStakes [] r = Inr r"
| "reduceStakes ((verifier, amount) # calls) r =
     (case reduceStake verifier amount r of Inl e \<Rightarrow> Inl e | Inr r' \<Rightarrow> reduceStakes calls r')"

section \<open>HourlyCredits\<close>

text \<open>
  The credit token inherits OpenZeppelin's ERC-1155, which is not part of the repository. Its
  \<^verbatim>\<open>_mint\<close> is modelled as: reject the zero address, add to the balance (checked), and ask the
  receiver's acceptance hook, whose answer is the field \<open>acceptsCredits\<close>.
\<close>

record HourlyCredits =
  h_productionOracle :: address
  balanceOf :: "address \<Rightarrow> nat \<Rightarrow> nat"
  acceptsCredits :: "address \<Rightarrow> bool"
  h_events :: "event list"

definition mint :: "address \<Rightarrow> address \<Rightarrow> nat \<Rightarrow> nat \<Rightarrow> claimKey \<Rightarrow> HourlyCredits \<Rightarrow> error + HourlyCredits" where
  "mint sender to hourId amountWh claimKey h =
     (if sender \<noteq> h_productionOracle h then Inl OnlyProductionOracle
      else if to = 0 \<or> \<not> acceptsCredits h to then Inl ERC1155InvalidReceiver
      else (case checked 256 (balanceOf h to hourId + amountWh) of
        Inl e \<Rightarrow> Inl e
      | Inr b \<Rightarrow> Inr (h\<lparr> balanceOf := (balanceOf h)(to := (balanceOf h to)(hourId := b)),
                         h_events := h_events h @ [HCNMinted hourId to amountWh claimKey] \<rparr>)))"

section \<open>Treasury and oracle state\<close>

record Treasury =
  t_productionOracle :: address
  t_consumptionOracle :: address
  rewardPool :: nat
  rewardPerWhWei :: nat
  slashBps :: nat
  faultThreshold :: nat
  slashingDisabled :: bool
  verifierFaults :: "address \<Rightarrow> nat"
  pendingRewards :: "address \<Rightarrow> nat"
  isSlashed :: "address \<Rightarrow> bool"
  t_events :: "event list"

record ClaimBucket =
  deadline :: nat
  snapshotId :: nat
  submissionCount :: nat
  finalized :: bool
  disputed :: bool
  verifiedEnergyWh :: nat
  maxSubmittedEnergyWh :: nat
  winningValueHash :: "valueHash option"
  evidenceRoot :: bytes32
  allSubmittersBitmap :: "16 word"
  winningVerifierBitmap :: "16 word"

record ValueSubmission =
  count :: nat
  verifierBitmap :: "16 word"
  vs_evidenceRoot :: bytes32
  energyWh :: nat

record ProductionOracle =
  oracleAddress :: address
  oracleOwner :: address
  claimWindow :: nat
  quorumBps :: nat
  baselineMode :: bool
  singleVerifierOverride :: address
  claimBuckets :: "claimKey \<Rightarrow> ClaimBucket"
  valueSubmissions :: "claimKey \<Rightarrow> valueHash \<Rightarrow> ValueSubmission"
  hasSubmitted :: "claimKey \<Rightarrow> address \<Rightarrow> bool"
  submittedEvidenceRoots :: "claimKey \<Rightarrow> bytes32 \<Rightarrow> bool"
  claimValueHashes :: "claimKey \<Rightarrow> valueHash list"
  o_events :: "event list"

text \<open>
  The deployed system: one instance of each contract, wired to each other. A call that fails
  (\<open>Inl\<close>) reverts: it returns no state, and \<open>transact\<close> keeps the state from before the call,
  including everything a nested call into another contract had written.
\<close>

record world =
  registry :: Registry
  treasury :: Treasury
  hourlyCredits :: HourlyCredits
  productionOracle :: ProductionOracle

definition transact :: "(world \<Rightarrow> error + world) \<Rightarrow> world \<Rightarrow> error option \<times> world" where
  "transact call w = (case call w of Inl e \<Rightarrow> (Some e, w) | Inr w' \<Rightarrow> (None, w'))"

section \<open>Treasury\<close>

function popcountLoop :: "16 word \<Rightarrow> nat \<Rightarrow> nat" where
  "popcountLoop bitmap cnt =
     (if bitmap \<noteq> 0 then popcountLoop (drop_bit 1 bitmap) (cnt + unat (bitmap AND 1)) else cnt)"
  by pat_completeness auto
termination
proof (relation "measure (\<lambda>(bitmap, cnt). unat bitmap)")
  show "wf (measure (\<lambda>(bitmap, cnt). unat bitmap))"
    by simp
next
  fix bitmap :: "16 word" and cnt :: nat
  assume "bitmap \<noteq> 0"
  then have "0 < unat bitmap"
    by (simp add: unat_gt_0)
  then have "unat bitmap div 2 < unat bitmap"
    by simp
  then show "((drop_bit 1 bitmap, cnt + unat (bitmap AND 1)), (bitmap, cnt))
             \<in> measure (\<lambda>(bitmap, cnt). unat bitmap)"
    by (simp add: drop_bit_eq_div unat_div)
qed

declare popcountLoop.simps [simp del]

definition popcount :: "16 word \<Rightarrow> nat" where
  "popcount bitmap = popcountLoop bitmap 0"

definition authorizedOracle :: "address \<Rightarrow> Treasury \<Rightarrow> bool" where
  \<comment> \<open>the modifier \<^verbatim>\<open>onlyAuthorizedOracle\<close> of the Treasury lets this sender pass\<close>
  "authorizedOracle sender t \<longleftrightarrow> \<not> (sender \<noteq> t_productionOracle t \<and> sender \<noteq> t_consumptionOracle t)"

function distributeLoop ::
  "nat \<Rightarrow> address list \<Rightarrow> 16 word \<Rightarrow> nat \<Rightarrow> (address \<Rightarrow> nat) \<Rightarrow> nat
     \<Rightarrow> error + ((address \<Rightarrow> nat) \<times> nat)" where
  "distributeLoop i vs winnerBitmap rewardPerWinner pending distributed =
     (if i < length vs \<and> i < 16
      then (if winnerBitmap AND push_bit i 1 \<noteq> 0
            then (case checked 256 (pending (vs ! i) + rewardPerWinner) of
                    Inl e \<Rightarrow> Inl e
                  | Inr p \<Rightarrow>
                     (case checked 256 (distributed + rewardPerWinner) of
                        Inl e \<Rightarrow> Inl e
                      | Inr d \<Rightarrow> distributeLoop (i + 1) vs winnerBitmap rewardPerWinner
                                   (pending(vs ! i := p)) d))
            else distributeLoop (i + 1) vs winnerBitmap rewardPerWinner pending distributed)
      else Inr (pending, distributed))"
  by pat_completeness auto
termination
  by (relation "measure (\<lambda>(i, vs, winnerBitmap, rewardPerWinner, pending, distributed). length vs - i)")
     auto

declare distributeLoop.simps [simp del]

definition distributeRewards :: "address \<Rightarrow> 16 word \<Rightarrow> nat \<Rightarrow> nat \<Rightarrow> world \<Rightarrow> error + world" where
  "distributeRewards sender winnerBitmap sid wh w =
     (let t = treasury w; winnerCount = popcount winnerBitmap in
      if \<not> authorizedOracle sender t then Inl OnlyAuthorizedOracle
      else if winnerCount = 0
      then Inr (w\<lparr>treasury := t\<lparr>t_events := t_events t
                  @ [RewardsDistributed winnerBitmap sid 0]\<rparr>\<rparr>)
      else (case checked 256 (wh * rewardPerWhWei t) of
        Inl e \<Rightarrow> Inl e
      | Inr totalReward \<Rightarrow>
         (if totalReward = 0
          then Inr (w\<lparr>treasury := t\<lparr>t_events := t_events t
                      @ [RewardsDistributed winnerBitmap sid 0]\<rparr>\<rparr>)
          else if rewardPool t < totalReward then Inl InsufficientRewardPool
          else (let rewardPerWinner = totalReward div winnerCount;
                    vs = getSnapshotVerifiers sid (registry w)
                in (case distributeLoop 0 vs winnerBitmap rewardPerWinner (pendingRewards t) 0 of
                      Inl e \<Rightarrow> Inl e
                    | Inr (pending, distributed) \<Rightarrow>
                       (case checked_sub (rewardPool t) distributed of
                          Inl e \<Rightarrow> Inl e
                        | Inr pool \<Rightarrow>
                            Inr (w\<lparr>treasury := t\<lparr> pendingRewards := pending,
                                     rewardPool := pool,
                                     t_events := t_events t
                                       @ [RewardsDistributed winnerBitmap sid distributed]
                                   \<rparr>\<rparr>)))))))"

definition slashInternal :: "address \<Rightarrow> world \<Rightarrow> error + world" where
  \<comment> \<open>\<^verbatim>\<open>_slash\<close>\<close>
  "slashInternal verifier w =
     (let t = (treasury w)\<lparr>isSlashed := (isSlashed (treasury w))(verifier := True)\<rparr>;
          stk = stake (getVerifier verifier (registry w))
      in (case checked 256 (stk * slashBps t) of
           Inl e \<Rightarrow> Inl e
         | Inr product \<Rightarrow>
            (let slashAmount = product div 10000 in
             if slashAmount > 0
             then (case reduceStake verifier slashAmount (registry w) of
                     Inl e \<Rightarrow> Inl e
                   | Inr r \<Rightarrow>
                      (case checked 256 (rewardPool t + slashAmount) of
                         Inl e \<Rightarrow> Inl e
                       | Inr pool \<Rightarrow>
                           Inr (w\<lparr> registry := r,
                                  treasury := t\<lparr> rewardPool := pool,
                                    t_events := t_events t @ [Slashed verifier slashAmount] \<rparr> \<rparr>)))
             else Inr (w\<lparr>treasury := t\<lparr>t_events := t_events t
                         @ [Slashed verifier slashAmount]\<rparr>\<rparr>))))"

definition countFault :: "address \<Rightarrow> FaultType \<Rightarrow> world \<Rightarrow> error + world" where
  \<comment> \<open>the statements that \<^verbatim>\<open>recordFault\<close> and the loop body of \<^verbatim>\<open>recordFaults\<close> share\<close>
  "countFault verifier faultType w =
     (case checked 256 (verifierFaults (treasury w) verifier + 1) of
        Inl e \<Rightarrow> Inl e
      | Inr n \<Rightarrow>
         (let t = (treasury w)\<lparr> verifierFaults := (verifierFaults (treasury w))(verifier := n),
                     t_events := t_events (treasury w) @ [FaultRecorded verifier faultType n] \<rparr>;
              w1 = w\<lparr>treasury := t\<rparr>
          in if \<not> slashingDisabled t \<and> verifierFaults t verifier \<ge> faultThreshold t
                \<and> \<not> isSlashed t verifier
             then slashInternal verifier w1
             else Inr w1))"

definition recordFault :: "address \<Rightarrow> address \<Rightarrow> FaultType \<Rightarrow> world \<Rightarrow> error + world" where
  "recordFault sender verifier faultType w =
     (if \<not> authorizedOracle sender (treasury w) then Inl OnlyAuthorizedOracle
      else countFault verifier faultType w)"

function recordFaultsLoop :: "nat \<Rightarrow> address list \<Rightarrow> 16 word \<Rightarrow> FaultType \<Rightarrow> world \<Rightarrow> error + world" where
  "recordFaultsLoop i vs loserBitmap faultType w =
     (if i < length vs \<and> i < 16
      then (if loserBitmap AND push_bit i 1 \<noteq> 0
            then (case countFault (vs ! i) faultType w of
                    Inl e \<Rightarrow> Inl e
                  | Inr w' \<Rightarrow> recordFaultsLoop (i + 1) vs loserBitmap faultType w')
            else recordFaultsLoop (i + 1) vs loserBitmap faultType w)
      else Inr w)"
  by pat_completeness auto
termination
  by (relation "measure (\<lambda>(i, vs, loserBitmap, faultType, w). length vs - i)") auto

declare recordFaultsLoop.simps [simp del]

definition recordFaults :: "address \<Rightarrow> 16 word \<Rightarrow> nat \<Rightarrow> FaultType \<Rightarrow> world \<Rightarrow> error + world" where
  "recordFaults sender loserBitmap sid faultType w =
     (if \<not> authorizedOracle sender (treasury w) then Inl OnlyAuthorizedOracle
      else if loserBitmap = 0 then Inr w
      else recordFaultsLoop 0 (getSnapshotVerifiers sid (registry w)) loserBitmap faultType w)"

definition slash :: "address \<Rightarrow> world \<Rightarrow> error + world" where
  "slash verifier w =
     (let t = treasury w in
      if verifierFaults t verifier < faultThreshold t then Inl FaultThresholdNotReached
      else if isSlashed t verifier then Inl AlreadySlashed
      else if slashingDisabled t then Inr w
      else slashInternal verifier w)"

section \<open>ProductionOracle\<close>

text \<open>
  In the functions below \<open>pid\<close> is the source's \<^verbatim>\<open>producerId\<close>, \<open>wh\<close> its \<^verbatim>\<open>energyWh\<close>, \<open>root\<close> its
  \<^verbatim>\<open>evidenceRoot\<close>, \<open>now\<close> is \<^verbatim>\<open>block.timestamp\<close>, and \<open>recovered\<close> is the address that ECDSA
  recovery yields for the submitted signature over the claim digest.
\<close>

definition getClaimKey :: "bytes32 \<Rightarrow> nat \<Rightarrow> claimKey" where
  "getClaimKey pid hourId = (pid, hourId)"

definition isProducerRegistered :: "bytes32 \<Rightarrow> world \<Rightarrow> bool" where
  "isProducerRegistered pid w =
     (case getProducer pid (registry w) of Inl e \<Rightarrow> False | Inr producer \<Rightarrow> True)"

definition validateSignature :: "address \<Rightarrow> error + address" where
  "validateSignature recovered = (if recovered = 0 then Inl InvalidSignature else Inr recovered)"

definition finalizeWithValue ::
  "claimKey \<Rightarrow> bytes32 \<Rightarrow> nat \<Rightarrow> nat \<Rightarrow> bytes32 \<Rightarrow> 16 word \<Rightarrow> world \<Rightarrow> error + world" where
  "finalizeWithValue claimKey pid hourId wh root winnerBitmap w =
     (let ora = productionOracle w;
          bucket = (claimBuckets ora claimKey)
            \<lparr> finalized := True, disputed := False, verifiedEnergyWh := wh,
              winningValueHash := Some (wh, root), evidenceRoot := root,
              winningVerifierBitmap := winnerBitmap \<rparr>;
          w1 = w\<lparr>productionOracle := ora\<lparr>claimBuckets := (claimBuckets ora)(claimKey := bucket)\<rparr>\<rparr>
      in (case getProducer pid (registry w1) of
            Inl e \<Rightarrow> Inl e
          | Inr producer \<Rightarrow>
             (case mint (oracleAddress ora) (payoutAddr producer) hourId wh claimKey
                     (hourlyCredits w1) of
                Inl e \<Rightarrow> Inl e
              | Inr h \<Rightarrow>
                 (case distributeRewards (oracleAddress ora) winnerBitmap (snapshotId bucket) wh
                         (w1\<lparr>hourlyCredits := h\<rparr>) of
                    Inl e \<Rightarrow> Inl e
                  | Inr w2 \<Rightarrow>
                      Inr (w2\<lparr>productionOracle := (productionOracle w2)
                             \<lparr>o_events := o_events (productionOracle w2)
                                @ [ProductionFinalized claimKey pid hourId wh root]\<rparr>\<rparr>)))))"

definition firstSubmission :: "claimKey \<Rightarrow> nat \<Rightarrow> world \<Rightarrow> error + world" where
  \<comment> \<open>"First submission creates snapshot and sets deadline"\<close>
  "firstSubmission claimKey now w =
     (let ora = productionOracle w; bucket = claimBuckets ora claimKey in
      if snapshotId bucket = 0
      then (case createSnapshot (oracleAddress ora) claimKey now (registry w) of
              Inl e \<Rightarrow> Inl e
            | Inr (sid, r) \<Rightarrow>
               (case checked 256 (now + claimWindow ora) of
                  Inl e \<Rightarrow> Inl e
                | Inr d \<Rightarrow>
                    Inr (w\<lparr> registry := r,
                           productionOracle := ora\<lparr>claimBuckets := (claimBuckets ora)
                             (claimKey := bucket\<lparr>snapshotId := sid, deadline := d\<rparr>)\<rparr> \<rparr>)))
      else Inr w)"

definition acceptSubmission ::
  "claimKey \<Rightarrow> bytes32 \<Rightarrow> nat \<Rightarrow> nat \<Rightarrow> bytes32 \<Rightarrow> address \<Rightarrow> nat \<Rightarrow> world \<Rightarrow> error + world" where
  \<comment> \<open>the success block of the \<^verbatim>\<open>try\<close>, after the duplicate check; \<open>verifierIndex\<close> is a \<^verbatim>\<open>uint8\<close>,
      \<^verbatim>\<open>1 << verifierIndex\<close> is computed in \<^verbatim>\<open>uint256\<close> and \<^verbatim>\<open>uint16(...)\<close> keeps its low 16 bits\<close>
  "acceptSubmission claimKey pid hourId wh root verifier verifierIndex w =
     (let ora = productionOracle w;
          bucket = claimBuckets ora claimKey;
          mask = (push_bit verifierIndex 1 :: 16 word);
          valueHash = (wh, root);
          valueSub = valueSubmissions ora claimKey valueHash;
          isNew = (count valueSub = 0);
          hashes = (if isNew then claimValueHashes ora claimKey @ [valueHash]
                    else claimValueHashes ora claimKey);
          valueSub1 = (if isNew then valueSub\<lparr>energyWh := wh, vs_evidenceRoot := root\<rparr>
                       else valueSub)
      in (case checked 32 (count valueSub1 + 1) of
            Inl e \<Rightarrow> Inl e
          | Inr c \<Rightarrow>
             (case checked 32 (submissionCount bucket + 1) of
                Inl e \<Rightarrow> Inl e
              | Inr sc \<Rightarrow>
                 (let valueSub2 = valueSub1\<lparr> count := c,
                        verifierBitmap := verifierBitmap valueSub1 OR mask \<rparr>;
                      bucket1 = bucket\<lparr> allSubmittersBitmap := allSubmittersBitmap bucket OR mask,
                        maxSubmittedEnergyWh :=
                          (if wh > maxSubmittedEnergyWh bucket then wh
                           else maxSubmittedEnergyWh bucket),
                        submissionCount := sc \<rparr>;
                      w1 = w\<lparr>productionOracle := ora
                        \<lparr> hasSubmitted := (hasSubmitted ora)
                            (claimKey := (hasSubmitted ora claimKey)(verifier := True)),
                          claimBuckets := (claimBuckets ora)(claimKey := bucket1),
                          claimValueHashes := (claimValueHashes ora)(claimKey := hashes),
                          valueSubmissions := (valueSubmissions ora)
                            (claimKey := (valueSubmissions ora claimKey)(valueHash := valueSub2)),
                          submittedEvidenceRoots := (submittedEvidenceRoots ora)
                            (claimKey := (submittedEvidenceRoots ora claimKey)(root := True)),
                          o_events := o_events ora
                            @ [ProductionSubmitted claimKey verifier wh valueHash] \<rparr>\<rparr>
                  in if baselineMode ora \<and> singleVerifierOverride ora \<noteq> 0
                        \<and> verifier = singleVerifierOverride ora
                     then finalizeWithValue claimKey pid hourId wh root (verifierBitmap valueSub2) w1
                     else Inr w1))))"

definition submitProduction ::
  "bytes32 \<Rightarrow> nat \<Rightarrow> nat \<Rightarrow> bytes32 \<Rightarrow> address \<Rightarrow> nat \<Rightarrow> world \<Rightarrow> error + world" where
  "submitProduction pid hourId wh root recovered now w =
     (let claimKey = getClaimKey pid hourId in
      if finalized (claimBuckets (productionOracle w) claimKey) then Inl ClaimAlreadyFinalized
      else if \<not> isProducerRegistered pid w then Inl ProducerNotRegistered
      else (case validateSignature recovered of
        Inl e \<Rightarrow> Inl e
      | Inr verifier \<Rightarrow>
         (if \<not> active (getVerifier verifier (registry w)) then Inl VerifierNotActive
          else (case firstSubmission claimKey now w of
            Inl e \<Rightarrow> Inl e
          | Inr w1 \<Rightarrow>
             (let ora = productionOracle w1; bucket = claimBuckets ora claimKey in
              if now > deadline bucket
              then (case recordFault (oracleAddress ora) verifier LateSubmission w1 of
                      Inl e \<Rightarrow> Inl e
                    | Inr w2 \<Rightarrow> Inl ClaimDeadlinePassed)
              else (case getVerifierIndex (snapshotId bucket) verifier (registry w1) of
                      Inl e \<Rightarrow> Inl VerifierNotInSnapshot
                    | Inr verifierIndex \<Rightarrow>
                       (if hasSubmitted ora claimKey verifier
                        then (case recordFault (oracleAddress ora) verifier
                                     DuplicateSubmissionFault w1 of
                                Inl e \<Rightarrow> Inl e
                              | Inr w2 \<Rightarrow> Inl DuplicateSubmission)
                        else acceptSubmission claimKey pid hourId wh root verifier
                               verifierIndex w1)))))))"

function winnerLoop ::
  "nat \<Rightarrow> valueHash list \<Rightarrow> (valueHash \<Rightarrow> ValueSubmission) \<Rightarrow> nat \<Rightarrow> valueHash option
     \<Rightarrow> nat \<times> valueHash option" where
  \<comment> \<open>the loop of \<^verbatim>\<open>finalizeProduction\<close> over \<^verbatim>\<open>valueHashes\<close>; the result is
      \<^verbatim>\<open>(maxCount, winningValueHash)\<close>\<close>
  "winnerLoop i valueHashes subs maxCount winning =
     (if i < length valueHashes
      then (let valueSub = subs (valueHashes ! i) in
            if count valueSub > maxCount
            then winnerLoop (i + 1) valueHashes subs (count valueSub) (Some (valueHashes ! i))
            else winnerLoop (i + 1) valueHashes subs maxCount winning)
      else (maxCount, winning))"
  by pat_completeness auto
termination
  by (relation "measure (\<lambda>(i, valueHashes, subs, maxCount, winning). length valueHashes - i)")
     auto

declare winnerLoop.simps [simp del]

definition zeroSubmission :: ValueSubmission where
  \<comment> \<open>the storage slot of a value hash that was never written\<close>
  "zeroSubmission = \<lparr>count = 0, verifierBitmap = 0, vs_evidenceRoot = 0, energyWh = 0\<rparr>"

definition noBucket :: ClaimBucket where
  \<comment> \<open>the storage slot of a claim key that was never written\<close>
  "noBucket = \<lparr> deadline = 0, snapshotId = 0, submissionCount = 0, finalized = False,
     disputed = False, verifiedEnergyWh = 0, maxSubmittedEnergyWh = 0, winningValueHash = None,
     evidenceRoot = 0, allSubmittersBitmap = 0, winningVerifierBitmap = 0 \<rparr>"

definition quorumRequired :: "nat \<Rightarrow> nat \<Rightarrow> error + nat" where
  \<comment> \<open>\<^verbatim>\<open>(snapshotCount * quorumBps + 9999) / 10000\<close> in checked \<^verbatim>\<open>uint256\<close> arithmetic\<close>
  "quorumRequired snapshotCount bps =
     (case checked 256 (snapshotCount * bps) of
        Inl e \<Rightarrow> Inl e
      | Inr p \<Rightarrow> (case checked 256 (p + 9999) of Inl e \<Rightarrow> Inl e | Inr q \<Rightarrow> Inr (q div 10000)))"

definition finalizeProduction :: "bytes32 \<Rightarrow> nat \<Rightarrow> nat \<Rightarrow> world \<Rightarrow> error + world" where
  "finalizeProduction pid hourId now w =
     (let claimKey = getClaimKey pid hourId;
          ora = productionOracle w;
          bucket = claimBuckets ora claimKey
      in if finalized bucket then Inl ClaimAlreadyFinalized
         else if deadline bucket = 0 \<or> now \<le> deadline bucket then Inl ClaimDeadlineNotReached
         else (case quorumRequired (getSnapshotCount (snapshotId bucket) (registry w))
                      (quorumBps ora) of
           Inl e \<Rightarrow> Inl e
         | Inr required \<Rightarrow>
            (let (maxCount, winning) =
                   winnerLoop 0 (claimValueHashes ora claimKey) (valueSubmissions ora claimKey) 0 None;
                 quorumReached = (maxCount \<ge> required)
             in if \<not> quorumReached
                then Inr (w\<lparr>productionOracle := ora
                       \<lparr> claimBuckets := (claimBuckets ora)
                           (claimKey := bucket\<lparr>disputed := True, finalized := False\<rparr>),
                         o_events := o_events ora
                           @ [ClaimDisputed claimKey pid hourId ''No quorum reached''] \<rparr>\<rparr>)
                else (let winningSub = (case winning of None \<Rightarrow> zeroSubmission
                                         | Some h \<Rightarrow> valueSubmissions ora claimKey h)
                      in (case finalizeWithValue claimKey pid hourId (energyWh winningSub)
                                   (vs_evidenceRoot winningSub) (verifierBitmap winningSub) w of
                            Inl e \<Rightarrow> Inl e
                          | Inr w1 \<Rightarrow>
                             (let bucket1 = claimBuckets (productionOracle w1) claimKey;
                                  loserBitmap =
                                    (allSubmittersBitmap bucket1 XOR verifierBitmap winningSub)
                                      AND allSubmittersBitmap bucket1
                              in if loserBitmap \<noteq> 0
                                 then recordFaults (oracleAddress ora) loserBitmap
                                        (snapshotId bucket1) WrongValue w1
                                 else Inr w1))))))"

definition forceFinalize ::
  "address \<Rightarrow> bytes32 \<Rightarrow> nat \<Rightarrow> nat \<Rightarrow> bytes32 \<Rightarrow> nat \<Rightarrow> world \<Rightarrow> error + world" where
  "forceFinalize sender pid hourId wh root now w =
     (let claimKey = getClaimKey pid hourId;
          ora = productionOracle w;
          bucket = claimBuckets ora claimKey
      in if sender \<noteq> oracleOwner ora then Inl OwnableUnauthorizedAccount
         else if \<not> disputed bucket then Inl ClaimNotDisputed
         else if now \<le> deadline bucket then Inl ClaimDeadlineNotReached
         else if wh > maxSubmittedEnergyWh bucket then Inl EnergyExceedsMaxSubmitted
         else if \<not> submittedEvidenceRoots ora claimKey root then Inl EvidenceRootNotSubmitted
         else (let bucket1 = bucket\<lparr> finalized := True, disputed := False,
                      verifiedEnergyWh := wh, evidenceRoot := root,
                      winningVerifierBitmap := 0 \<rparr>
               in (case getProducer pid (registry w) of
                     Inl e \<Rightarrow> Inl e
                   | Inr producer \<Rightarrow>
                      (case mint (oracleAddress ora) (payoutAddr producer) hourId wh claimKey
                              (hourlyCredits w) of
                         Inl e \<Rightarrow> Inl e
                       | Inr h \<Rightarrow>
                           Inr (w\<lparr> hourlyCredits := h,
                                  productionOracle := ora
                                    \<lparr> claimBuckets := (claimBuckets ora)(claimKey := bucket1),
                                      o_events := o_events ora
                                        @ [ForceFinalized claimKey sender wh,
                                           ProductionFinalized claimKey pid hourId wh root]
                                    \<rparr> \<rparr>)))))"

definition setQuorumBps :: "address \<Rightarrow> nat \<Rightarrow> world \<Rightarrow> error + world" where
  \<comment> \<open>\<^verbatim>\<open>onlyOwner\<close>; the function writes the oracle's own \<^verbatim>\<open>quorumBps\<close> and emits nothing\<close>
  "setQuorumBps sender bps w =
     (if sender \<noteq> oracleOwner (productionOracle w) then Inl OwnableUnauthorizedAccount
      else Inr (w\<lparr>productionOracle := (productionOracle w)\<lparr>quorumBps := bps\<rparr>\<rparr>))"

section \<open>Post-states named in the statements\<close>

definition setBits :: "16 word \<Rightarrow> nat list" where
  \<comment> \<open>the positions of the bits that are set, in ascending order\<close>
  "setBits bitmap = filter (bit bitmap) [0..<16]"

definition noted :: "event \<Rightarrow> world \<Rightarrow> world" where
  \<comment> \<open>the state with one more event in the Treasury's log and nothing else changed\<close>
  "noted ev w = w\<lparr>treasury := (treasury w)\<lparr>t_events := t_events (treasury w) @ [ev]\<rparr>\<rparr>"

definition rewarded :: "16 word \<Rightarrow> nat \<Rightarrow> (address \<Rightarrow> nat) \<Rightarrow> nat \<Rightarrow> world \<Rightarrow> world" where
  \<comment> \<open>the state that \<open>distributeRewards\<close> leaves after paying \<open>distributed\<close> out of the pool\<close>
  "rewarded bm sid pending distributed w =
     w\<lparr>treasury := (treasury w)\<lparr> pendingRewards := pending,
          rewardPool := rewardPool (treasury w) - distributed,
          t_events := t_events (treasury w) @ [RewardsDistributed bm sid distributed] \<rparr>\<rparr>"

definition positionIn :: "address \<Rightarrow> address list \<Rightarrow> nat" where
  \<comment> \<open>the position (from 0) of the first occurrence of \<open>v\<close> in a list that holds it\<close>
  "positionIn v vs = length (takeWhile (\<lambda>u. u \<noteq> v) vs)"

definition sortedUpTo :: "nat \<Rightarrow> address list \<Rightarrow> bool" where
  \<comment> \<open>the invariant of the outer sorting loop: the first \<open>i\<close> places are sorted and hold the
      smallest elements\<close>
  "sortedUpTo i arr \<longleftrightarrow> sorted (take i arr)
     \<and> (\<forall>x \<in> set (take i arr). \<forall>y \<in> set (drop i arr). x \<le> y)"

definition bucketOf :: "bytes32 \<Rightarrow> nat \<Rightarrow> world \<Rightarrow> ClaimBucket" where
  "bucketOf pid hourId w = claimBuckets (productionOracle w) (getClaimKey pid hourId)"

definition tallyOf :: "bytes32 \<Rightarrow> nat \<Rightarrow> world \<Rightarrow> valueHash \<Rightarrow> ValueSubmission" where
  "tallyOf pid hourId w = valueSubmissions (productionOracle w) (getClaimKey pid hourId)"

definition maxCountOf :: "bytes32 \<Rightarrow> nat \<Rightarrow> world \<Rightarrow> nat" where
  \<comment> \<open>\<^verbatim>\<open>maxCount\<close> after the loop of \<^verbatim>\<open>finalizeProduction\<close>\<close>
  "maxCountOf pid hourId w =
     fst (winnerLoop 0 (claimValueHashes (productionOracle w) (getClaimKey pid hourId))
            (tallyOf pid hourId w) 0 None)"

definition winnerOf :: "bytes32 \<Rightarrow> nat \<Rightarrow> world \<Rightarrow> ValueSubmission" where
  \<comment> \<open>\<^verbatim>\<open>winningSub\<close>: the tally stored under \<^verbatim>\<open>winningValueHash\<close> after the loop\<close>
  "winnerOf pid hourId w =
     (case snd (winnerLoop 0 (claimValueHashes (productionOracle w) (getClaimKey pid hourId))
                  (tallyOf pid hourId w) 0 None) of
        None \<Rightarrow> zeroSubmission
      | Some h \<Rightarrow> tallyOf pid hourId w h)"

definition requiredOf :: "bytes32 \<Rightarrow> nat \<Rightarrow> world \<Rightarrow> error + nat" where
  \<comment> \<open>\<^verbatim>\<open>quorumRequired\<close> for the bucket's snapshot and the oracle's current \<^verbatim>\<open>quorumBps\<close>\<close>
  "requiredOf pid hourId w =
     quorumRequired (getSnapshotCount (snapshotId (bucketOf pid hourId w)) (registry w))
       (quorumBps (productionOracle w))"

definition disputedWorld :: "bytes32 \<Rightarrow> nat \<Rightarrow> world \<Rightarrow> world" where
  \<comment> \<open>the state that the no-quorum branch of \<^verbatim>\<open>finalizeProduction\<close> leaves\<close>
  "disputedWorld pid hourId w =
     w\<lparr>productionOracle := (productionOracle w)
        \<lparr> claimBuckets := (claimBuckets (productionOracle w))
            (getClaimKey pid hourId := (bucketOf pid hourId w)\<lparr>disputed := True, finalized := False\<rparr>),
          o_events := o_events (productionOracle w)
            @ [ClaimDisputed (getClaimKey pid hourId) pid hourId ''No quorum reached''] \<rparr>\<rparr>"

definition deadlinePassed :: "bytes32 \<Rightarrow> nat \<Rightarrow> nat \<Rightarrow> world \<Rightarrow> bool" where
  \<comment> \<open>the bucket exists, is not finalized, and its deadline lies before \<open>now\<close>\<close>
  "deadlinePassed pid hourId now w \<longleftrightarrow> \<not> finalized (bucketOf pid hourId w)
     \<and> deadline (bucketOf pid hourId w) \<noteq> 0 \<and> deadline (bucketOf pid hourId w) < now"

definition finalizedBucket :: "ClaimBucket \<Rightarrow> nat \<Rightarrow> bytes32 \<Rightarrow> 16 word \<Rightarrow> ClaimBucket" where
  \<comment> \<open>the bucket as \<^verbatim>\<open>_finalizeWithValue\<close> marks it\<close>
  "finalizedBucket b wh root bm =
     b\<lparr> finalized := True, disputed := False, verifiedEnergyWh := wh,
        winningValueHash := Some (wh, root), evidenceRoot := root,
        winningVerifierBitmap := bm \<rparr>"

definition accepted ::
  "claimKey \<Rightarrow> nat \<Rightarrow> bytes32 \<Rightarrow> address \<Rightarrow> nat \<Rightarrow> world \<Rightarrow> world" where
  \<comment> \<open>the state after the storage writes of an accepted submission, before the baseline
      shortcut is considered\<close>
  "accepted ck wh root verifier verifierIndex w =
     (let ora = productionOracle w;
          bucket = claimBuckets ora ck;
          tally = valueSubmissions ora ck (wh, root);
          tally1 = (if count tally = 0 then tally\<lparr>energyWh := wh, vs_evidenceRoot := root\<rparr>
                    else tally)
      in w\<lparr>productionOracle := ora
           \<lparr> hasSubmitted := (hasSubmitted ora)(ck := (hasSubmitted ora ck)(verifier := True)),
             claimBuckets := (claimBuckets ora)
               (ck := bucket\<lparr> allSubmittersBitmap :=
                          allSubmittersBitmap bucket OR push_bit verifierIndex 1,
                        maxSubmittedEnergyWh :=
                          (if wh > maxSubmittedEnergyWh bucket then wh
                           else maxSubmittedEnergyWh bucket),
                        submissionCount := submissionCount bucket + 1 \<rparr>),
             claimValueHashes := (claimValueHashes ora)
               (ck := (if count tally = 0 then claimValueHashes ora ck @ [(wh, root)]
                       else claimValueHashes ora ck)),
             valueSubmissions := (valueSubmissions ora)
               (ck := (valueSubmissions ora ck)
                  ((wh, root) := tally1\<lparr> count := count tally1 + 1,
                        verifierBitmap := verifierBitmap tally1 OR push_bit verifierIndex 1 \<rparr>)),
             submittedEvidenceRoots := (submittedEvidenceRoots ora)
               (ck := (submittedEvidenceRoots ora ck)(root := True)),
             o_events := o_events ora @ [ProductionSubmitted ck verifier wh (wh, root)] \<rparr>\<rparr>)"

definition talliesBounded :: "world \<Rightarrow> bool" where
  \<comment> \<open>no tally of a claim records more energy than the bucket's maximum\<close>
  "talliesBounded w \<longleftrightarrow>
     (\<forall>ck h. energyWh (valueSubmissions (productionOracle w) ck h)
              \<le> maxSubmittedEnergyWh (claimBuckets (productionOracle w) ck))"

definition verifiedBounded :: "world \<Rightarrow> bool" where
  "verifiedBounded w \<longleftrightarrow>
     (\<forall>ck. finalized (claimBuckets (productionOracle w) ck)
          \<longrightarrow> verifiedEnergyWh (claimBuckets (productionOracle w) ck)
              \<le> maxSubmittedEnergyWh (claimBuckets (productionOracle w) ck))"

definition snapshotOf :: "claimKey \<Rightarrow> world \<Rightarrow> address list" where
  \<comment> \<open>the verifiers of the snapshot that the bucket of a claim refers to\<close>
  "snapshotOf ck w =
     getSnapshotVerifiers (snapshotId (claimBuckets (productionOracle w) ck)) (registry w)"

definition untouched :: "claimKey \<Rightarrow> world \<Rightarrow> bool" where
  \<comment> \<open>no submission for the claim was accepted yet\<close>
  "untouched ck w \<longleftrightarrow>
     allSubmittersBitmap (claimBuckets (productionOracle w) ck) = 0
     \<and> submissionCount (claimBuckets (productionOracle w) ck) = 0
     \<and> (\<forall>h. count (valueSubmissions (productionOracle w) ck h) = 0
            \<and> verifierBitmap (valueSubmissions (productionOracle w) ck h) = 0)"

definition bitmapsCounted :: "claimKey \<Rightarrow> world \<Rightarrow> bool" where
  \<comment> \<open>the counters of a claim are the numbers of bits of its bitmaps, and every bit stands for
      a snapshot verifier that has submitted\<close>
  "bitmapsCounted ck w \<longleftrightarrow>
     submissionCount (claimBuckets (productionOracle w) ck)
       = popcount (allSubmittersBitmap (claimBuckets (productionOracle w) ck))
     \<and> (\<forall>i. bit (allSubmittersBitmap (claimBuckets (productionOracle w) ck)) i
            \<longrightarrow> i < length (snapshotOf ck w)
              \<and> hasSubmitted (productionOracle w) ck (snapshotOf ck w ! i))
     \<and> (\<forall>h. count (valueSubmissions (productionOracle w) ck h)
              = popcount (verifierBitmap (valueSubmissions (productionOracle w) ck h)))
     \<and> (\<forall>h i. bit (verifierBitmap (valueSubmissions (productionOracle w) ck h)) i
            \<longrightarrow> i < length (snapshotOf ck w)
              \<and> hasSubmitted (productionOracle w) ck (snapshotOf ck w ! i))"

definition snapshotsKept :: "world \<Rightarrow> bool" where
  \<comment> \<open>snapshot ids start at 1, every bucket refers to a snapshot that exists, and a bucket
      without a snapshot has no submission\<close>
  "snapshotsKept w \<longleftrightarrow> 0 < nextSnapshotId (registry w)
     \<and> (\<forall>ck. snapshotId (claimBuckets (productionOracle w) ck) < nextSnapshotId (registry w)
            \<and> (snapshotId (claimBuckets (productionOracle w) ck) = 0 \<longrightarrow> untouched ck w))"

definition submittersCounted :: "world \<Rightarrow> bool" where
  "submittersCounted w \<longleftrightarrow>
     (\<forall>ck. snapshotId (claimBuckets (productionOracle w) ck) \<noteq> 0
            \<and> length (snapshotOf ck w) \<le> 16 \<longrightarrow> bitmapsCounted ck w)"

definition sameSubmissions :: "world \<Rightarrow> world \<Rightarrow> bool" where
  \<comment> \<open>a step that writes no submission data and keeps the snapshots that exist\<close>
  "sameSubmissions w w' \<longleftrightarrow>
     (\<forall>ck. snapshotId (claimBuckets (productionOracle w') ck)
              = snapshotId (claimBuckets (productionOracle w) ck)
          \<and> allSubmittersBitmap (claimBuckets (productionOracle w') ck)
              = allSubmittersBitmap (claimBuckets (productionOracle w) ck)
          \<and> submissionCount (claimBuckets (productionOracle w') ck)
              = submissionCount (claimBuckets (productionOracle w) ck))
     \<and> valueSubmissions (productionOracle w') = valueSubmissions (productionOracle w)
     \<and> hasSubmitted (productionOracle w') = hasSubmitted (productionOracle w)
     \<and> nextSnapshotId (registry w) \<le> nextSnapshotId (registry w')
     \<and> (\<forall>sid < nextSnapshotId (registry w).
           snapshots (registry w') sid = snapshots (registry w) sid)"

text \<open>
  The states that the system reaches from a freshly deployed oracle (the Registry starts its
  snapshot ids at 1): by the three oracle functions that write buckets and tallies, and by any
  other step (of the Registry, the Treasury, the credit token or the oracle's parameters),
  which writes no submission data and no snapshot that exists. The model has one Registry, one
  Treasury and one credit token: the owner's functions that point the oracle to other
  contracts are not steps of it.
\<close>

inductive reachable :: "world \<Rightarrow> bool" where
  fresh:
    "claimBuckets (productionOracle w) = (\<lambda>k. noBucket)
     \<Longrightarrow> valueSubmissions (productionOracle w) = (\<lambda>k h. zeroSubmission)
     \<Longrightarrow> 0 < nextSnapshotId (registry w)
     \<Longrightarrow> reachable w"
| submit:
    "reachable w \<Longrightarrow> submitProduction pid hourId wh root recovered now w = Inr w'
     \<Longrightarrow> reachable w'"
| finalize:
    "reachable w \<Longrightarrow> finalizeProduction pid hourId now w = Inr w' \<Longrightarrow> reachable w'"
| force:
    "reachable w \<Longrightarrow> forceFinalize sender pid hourId wh root now w = Inr w' \<Longrightarrow> reachable w'"
| other:
    "reachable w
     \<Longrightarrow> claimBuckets (productionOracle w') = claimBuckets (productionOracle w)
     \<Longrightarrow> valueSubmissions (productionOracle w') = valueSubmissions (productionOracle w)
     \<Longrightarrow> hasSubmitted (productionOracle w') = hasSubmitted (productionOracle w)
     \<Longrightarrow> nextSnapshotId (registry w) \<le> nextSnapshotId (registry w')
     \<Longrightarrow> (\<forall>sid < nextSnapshotId (registry w).
            snapshots (registry w') sid = snapshots (registry w) sid)
     \<Longrightarrow> reachable w'"

definition slashAmountOf :: "address \<Rightarrow> world \<Rightarrow> nat" where
  \<comment> \<open>\<^verbatim>\<open>(stake * slashBps) / 10000\<close> for the verifier's current stake\<close>
  "slashAmountOf v w = stake (r_verifiers (registry w) v) * slashBps (treasury w) div 10000"

definition slashed :: "address \<Rightarrow> world \<Rightarrow> world" where
  \<comment> \<open>the state a completed \<^verbatim>\<open>_slash\<close> leaves; the subtraction on \<open>nat\<close> stops at 0\<close>
  "slashed v w =
     w\<lparr> registry := (registry w)\<lparr> r_verifiers := (r_verifiers (registry w))
            (v := (r_verifiers (registry w) v)
               \<lparr>stake := stake (r_verifiers (registry w) v) - slashAmountOf v w\<rparr>) \<rparr>,
        treasury := (treasury w)\<lparr> isSlashed := (isSlashed (treasury w))(v := True),
            rewardPool := rewardPool (treasury w) + slashAmountOf v w,
            t_events := t_events (treasury w) @ [Slashed v (slashAmountOf v w)] \<rparr> \<rparr>"

definition faultCounted :: "address \<Rightarrow> FaultType \<Rightarrow> world \<Rightarrow> world" where
  \<comment> \<open>the state after the counter increment and its event\<close>
  "faultCounted v ft w =
     w\<lparr>treasury := (treasury w)
        \<lparr> verifierFaults := (verifierFaults (treasury w))(v := verifierFaults (treasury w) v + 1),
          t_events := t_events (treasury w)
            @ [FaultRecorded v ft (verifierFaults (treasury w) v + 1)] \<rparr>\<rparr>"

definition slashDue :: "address \<Rightarrow> world \<Rightarrow> bool" where
  \<comment> \<open>the next fault of \<open>v\<close> reaches the threshold, slashing is enabled, \<open>v\<close> is not yet slashed\<close>
  "slashDue v w \<longleftrightarrow> \<not> slashingDisabled (treasury w)
     \<and> faultThreshold (treasury w) \<le> verifierFaults (treasury w) v + 1
     \<and> \<not> isSlashed (treasury w) v"

definition slashFits :: "address \<Rightarrow> world \<Rightarrow> bool" where
  \<comment> \<open>no checked operation of \<^verbatim>\<open>_slash\<close> leaves \<^verbatim>\<open>uint256\<close>\<close>
  "slashFits v w \<longleftrightarrow> stake (r_verifiers (registry w) v) * slashBps (treasury w) < 2 ^ 256
     \<and> (0 < slashAmountOf v w \<longrightarrow> rewardPool (treasury w) + slashAmountOf v w < 2 ^ 256)"

section \<open>A deployment used for the concrete evaluations\<close>

definition noVerifier :: Verifier where
  "noVerifier = \<lparr>stake = 0, faults = 0, active = False, allowlisted = False\<rparr>"

definition noProducer :: Producer where
  "noProducer = \<lparr>producerId = 0, systemIdHash = 0, metaHash = 0, payoutAddr = 0, owner = 0,
     producerActive = False\<rparr>"

definition registry0 :: Registry where
  \<comment> \<open>the Registry after its constructor, with the oracles at the addresses 500 and 501\<close>
  "registry0 = \<lparr> r_producers = (\<lambda>p. noProducer), r_verifiers = (\<lambda>v. noVerifier),
     activeVerifiers = [], activeVerifierIndex = (\<lambda>v. 0), claimKeyToSnapshotId = (\<lambda>k. 0),
     snapshots = (\<lambda>i. \<lparr>verifiers = [], timestamp = 0\<rparr>), nextSnapshotId = 1,
     r_productionOracle = 500, r_consumptionOracle = 501, minStake = 100 * 10 ^ 18,
     permissionedMode = True, r_events = [] \<rparr>"

definition staked :: "address \<Rightarrow> nat \<Rightarrow> Registry \<Rightarrow> Registry" where
  \<comment> \<open>the owner has allowlisted \<open>v\<close> and \<open>v\<close> has staked \<open>amount\<close>\<close>
  "staked v amount r =
     r\<lparr>r_verifiers := (r_verifiers r)
        (v := (r_verifiers r v)\<lparr>stake := stake (r_verifiers r v) + amount, allowlisted := True\<rparr>)\<rparr>"

definition treasury0 :: Treasury where
  \<comment> \<open>the Treasury after its constructor and the two oracle setters\<close>
  "treasury0 = \<lparr> t_productionOracle = 500, t_consumptionOracle = 501, rewardPool = 0,
     rewardPerWhWei = 10 ^ 12, slashBps = 1000, faultThreshold = 3, slashingDisabled = False,
     verifierFaults = (\<lambda>v. 0), pendingRewards = (\<lambda>v. 0), isSlashed = (\<lambda>v. False),
     t_events = [] \<rparr>"

definition hourlyCredits0 :: HourlyCredits where
  "hourlyCredits0 = \<lparr> h_productionOracle = 500, balanceOf = (\<lambda>a i. 0),
     acceptsCredits = (\<lambda>a. True), h_events = [] \<rparr>"

definition oracle0 :: ProductionOracle where
  \<comment> \<open>the oracle at address 500 after its constructor, owned by the account 1\<close>
  "oracle0 = \<lparr> oracleAddress = 500, oracleOwner = 1, claimWindow = 3600, quorumBps = 6667,
     baselineMode = False, singleVerifierOverride = 0, claimBuckets = (\<lambda>k. noBucket),
     valueSubmissions = (\<lambda>k h. zeroSubmission), hasSubmitted = (\<lambda>k v. False),
     submittedEvidenceRoots = (\<lambda>k e. False), claimValueHashes = (\<lambda>k. []), o_events = [] \<rparr>"

definition world0 :: world where
  "world0 = \<lparr> registry = registry0, treasury = treasury0, hourlyCredits = hourlyCredits0,
     productionOracle = oracle0 \<rparr>"

definition overSlashWorld :: world where
  \<comment> \<open>the owner has set \<^verbatim>\<open>slashBps\<close> to 20000 and \<^verbatim>\<open>faultThreshold\<close> to 1; verifier 7 has staked 100\<close>
  "overSlashWorld = world0\<lparr> registry := staked 7 100 registry0,
     treasury := treasury0\<lparr>slashBps := 20000, faultThreshold := 1\<rparr> \<rparr>"

definition stakedWorld :: world where
  \<comment> \<open>the default deployment; verifier 7 has staked 100\<close>
  "stakedWorld = world0\<lparr>registry := staked 7 100 registry0\<rparr>"

definition registry2 :: Registry where
  \<comment> \<open>the verifiers 7 and 9 are allowlisted, have staked the minimum and have activated\<close>
  "registry2 = projr (activateVerifier 9 (projr (activateVerifier 7
     (staked 9 (100 * 10 ^ 18) (staked 7 (100 * 10 ^ 18) registry0)))))"

definition fundedWorld :: world where
  \<comment> \<open>a snapshot (id 1) of the two active verifiers exists and the reward pool holds \<open>10 ^ 18\<close>\<close>
  "fundedWorld = world0\<lparr> registry := snd (projr (createSnapshot 500 (1, 500000) 1000 registry2)),
     treasury := treasury0\<lparr>rewardPool := 10 ^ 18\<rparr> \<rparr>"

definition registry3 :: Registry where
  \<comment> \<open>three verifiers have activated in the order 9, 7, 8\<close>
  "registry3 = projr (activateVerifier 8 (projr (activateVerifier 7 (projr (activateVerifier 9
     (staked 8 (100 * 10 ^ 18) (staked 7 (100 * 10 ^ 18) (staked 9 (100 * 10 ^ 18) registry0))))))))"

definition registered :: "bytes32 \<Rightarrow> address \<Rightarrow> address \<Rightarrow> Registry \<Rightarrow> Registry" where
  \<comment> \<open>the account \<open>own\<close> has registered a producer that received the id \<open>pid\<close>\<close>
  "registered pid payout own r =
     r\<lparr>r_producers := (r_producers r)
        (pid := \<lparr>producerId = pid, systemIdHash = 1, metaHash = 2, payoutAddr = payout,
                 owner = own, producerActive = True\<rparr>)\<rparr>"

definition claimWorld :: world where
  \<comment> \<open>the default deployment with an empty reward pool, the verifiers 7 and 9 active and the
      producer 42 registered\<close>
  "claimWorld = world0\<lparr>registry := registered 42 1000 2000 registry2\<rparr>"

definition oneSubmission :: world where
  \<comment> \<open>verifier 7 has submitted 5000 Wh for hour 500000 at time 1000\<close>
  "oneSubmission = projr (submitProduction 42 500000 5000 43690 7 1000 claimWorld)"

definition twoSubmissions :: world where
  \<comment> \<open>verifier 9 has submitted the same value at time 1500\<close>
  "twoSubmissions = projr (submitProduction 42 500000 5000 43690 9 1500 oneSubmission)"

definition fundedSubmissions :: world where
  \<comment> \<open>\<open>twoSubmissions\<close> after a deposit of \<open>10 ^ 18\<close> into the reward pool\<close>
  "fundedSubmissions = twoSubmissions\<lparr>treasury := (treasury twoSubmissions)\<lparr>rewardPool := 10 ^ 18\<rparr>\<rparr>"

definition forcedWorld :: world where
  \<comment> \<open>\<open>oneSubmission\<close> after \<^verbatim>\<open>finalizeProduction\<close> at time 5000 has left the claim disputed and
      the owner has called \<^verbatim>\<open>forceFinalize\<close> with the submitted value at time 6000\<close>
  "forcedWorld =
     projr (forceFinalize 1 42 500000 5000 43690 6000 (disputedWorld 42 500000 oneSubmission))"

definition baselineWorld :: world where
  \<comment> \<open>\<open>claimWorld\<close> with \<open>10 ^ 18\<close> in the reward pool and the baseline mode switched on for
      verifier 7\<close>
  "baselineWorld = claimWorld
     \<lparr> treasury := treasury0\<lparr>rewardPool := 10 ^ 18\<rparr>,
       productionOracle := oracle0\<lparr>baselineMode := True, singleVerifierOverride := 7\<rparr> \<rparr>"

definition requorumWorld :: world where
  \<comment> \<open>\<open>oneSubmission\<close> after \<^verbatim>\<open>finalizeProduction\<close> at time 5000 has left the claim disputed and
      the owner has set \<^verbatim>\<open>quorumBps\<close> to 5000, which makes the quorum of the two-verifier
      snapshot 1\<close>
  "requorumWorld = projr (setQuorumBps 1 5000 (disputedWorld 42 500000 oneSubmission))"

definition requorumFunded :: world where
  \<comment> \<open>\<open>requorumWorld\<close> after a deposit of \<open>10 ^ 18\<close> into the reward pool\<close>
  "requorumFunded = requorumWorld\<lparr>treasury := (treasury requorumWorld)\<lparr>rewardPool := 10 ^ 18\<rparr>\<rparr>"

definition seventeenWorld :: world where
  \<comment> \<open>the default deployment with the producer 42 registered and the accounts 1 to 17
      allowlisted, staked and activated in ascending order\<close>
  "seventeenWorld = world0\<lparr>registry := registered 42 1000 2000 (registry0
     \<lparr> r_verifiers := (\<lambda>v. if 1 \<le> v \<and> v \<le> 17
          then \<lparr>stake = 100 * 10 ^ 18, faults = 0, active = True, allowlisted = True\<rparr>
          else noVerifier),
       activeVerifiers := [1..<18],
       activeVerifierIndex := (\<lambda>v. if 1 \<le> v \<and> v \<le> 17 then v else 0),
       r_events := map VerifierActivated [1..<18] \<rparr>)\<rparr>"

definition lowQuorumWorld :: world where
  \<comment> \<open>\<open>seventeenWorld\<close> after the owner has set \<^verbatim>\<open>quorumBps\<close> to 500, which makes the quorum
      of a seventeen-verifier snapshot 1\<close>
  "lowQuorumWorld = seventeenWorld\<lparr>productionOracle := oracle0\<lparr>quorumBps := 500\<rparr>\<rparr>"

definition crowdedRegistry :: Registry where
  \<comment> \<open>the accounts 1 to 257 are allowlisted, have staked the minimum and have activated, in
      ascending order\<close>
  "crowdedRegistry = registry0
     \<lparr> r_verifiers := (\<lambda>v. if 1 \<le> v \<and> v \<le> 257
          then \<lparr>stake = 100 * 10 ^ 18, faults = 0, active = True, allowlisted = True\<rparr>
          else noVerifier),
       activeVerifiers := [1..<258],
       activeVerifierIndex := (\<lambda>v. if 1 \<le> v \<and> v \<le> 257 then v else 0),
       r_events := map VerifierActivated [1..<258] \<rparr>"

definition losersWorld :: world where
  \<comment> \<open>a snapshot (id 1) of the active verifiers 7 and 9 exists, each with a stake of
      \<open>100 * 10 ^ 18\<close>, and verifier 9 has two faults (the threshold is 3)\<close>
  "losersWorld = fundedWorld\<lparr>treasury := treasury0\<lparr>verifierFaults := (\<lambda>v. 0)(9 := 2)\<rparr>\<rparr>"

definition dueWorld :: world where
  \<comment> \<open>\<open>stakedWorld\<close> with three faults of verifier 7 on record and verifier 7 not slashed, as
      after three faults recorded while slashing was disabled\<close>
  "dueWorld = stakedWorld\<lparr>treasury := treasury0\<lparr>verifierFaults := (\<lambda>v. 0)(7 := 3)\<rparr>\<rparr>"

definition twoFaultsWorld :: world where
  \<comment> \<open>\<open>stakedWorld\<close> after two faults of verifier 7 (the threshold is 3)\<close>
  "twoFaultsWorld = stakedWorld\<lparr>treasury := treasury0\<lparr>verifierFaults := (\<lambda>v. 0)(7 := 2)\<rparr>\<rparr>"

section \<open>Registry: stake reduction\<close>

lemmas deployment_defs = world0_def registry0_def treasury0_def hourlyCredits0_def oracle0_def
  noVerifier_def noProducer_def noBucket_def zeroSubmission_def staked_def


lemma reduceStake_Inr:
  "reduceStake v a r =
     Inr (r\<lparr> r_verifiers := (r_verifiers r)
            (v := (r_verifiers r v)\<lparr>stake := stake (r_verifiers r v) - a\<rparr>) \<rparr>)"
  by (simp add: reduceStake_def checked_sub_def)

lemma reduceStakes_Inr: "\<exists>r'. reduceStakes calls r = Inr r'"
proof (induction calls arbitrary: r)
  case Nil
  show ?case by simp
next
  case (Cons c calls)
  obtain v a where c: "c = (v, a)"
    by (cases c)
  show ?case
    using Cons.IH by (simp add: c reduceStake_Inr)
qed

text \<open>
  C10. \<open>reduceStake\<close> returns for every verifier, amount and registry state, and for every
  caller (the function has no access check). An amount of at most the stake is subtracted
  exactly; a larger amount leaves the stake at 0. Read in the integers, the new stake is
  \<open>max 0 (stake - amount)\<close>, so it is never negative; no other verifier's record changes; and
  a whole sequence of \<open>reduceStake\<close> calls returns as well.
\<close>

theorem reduceStake_never_fails:
  "\<exists>r'. reduceStake v a r = Inr r'
     \<and> (a \<le> stake (r_verifiers r v) \<longrightarrow> stake (r_verifiers r' v) = stake (r_verifiers r v) - a)
     \<and> (a > stake (r_verifiers r v) \<longrightarrow> stake (r_verifiers r' v) = 0)
     \<and> int (stake (r_verifiers r' v)) = max 0 (int (stake (r_verifiers r v)) - int a)
     \<and> (\<forall>u. u \<noteq> v \<longrightarrow> r_verifiers r' u = r_verifiers r u)
     \<and> (\<exists>r''. reduceStakes calls r = Inr r'')"
proof -
  have "int (stake (r_verifiers r v) - a) = max 0 (int (stake (r_verifiers r v)) - int a)"
    by (simp add: max_def)
  then show ?thesis
    using reduceStakes_Inr [of calls r] by (simp add: reduceStake_Inr)
qed

theorem reduceStake_never_fails_witness:
  "\<exists>r'. reduceStake 7 150 (staked 7 100 registry0) = Inr r'
     \<and> stake (r_verifiers r' 7) = 0
     \<and> (\<exists>r''. reduceStakes [(7, 30), (7, 80), (8, 5)] (staked 7 100 registry0) = Inr r'')"
proof -
  obtain r' where r': "reduceStake 7 150 (staked 7 100 registry0) = Inr r'"
    and zero: "150 > stake (r_verifiers (staked 7 100 registry0) 7) \<longrightarrow> stake (r_verifiers r' 7) = 0"
    and calls: "\<exists>r''. reduceStakes [(7, 30), (7, 80), (8, 5)] (staked 7 100 registry0) = Inr r''"
    using reduceStake_never_fails [of 7 150 "staked 7 100 registry0" "[(7, 30), (7, 80), (8, 5)]"]
    by blast
  have "150 > stake (r_verifiers (staked 7 100 registry0) 7)"
    by (simp add: staked_def registry0_def noVerifier_def)
  with r' zero calls show ?thesis
    by blast
qed

section \<open>Treasury: faults and slashing\<close>

lemma same_stake [simp]: "(f :: address \<Rightarrow> Verifier)(v := (f v)\<lparr>stake := stake (f v)\<rparr>) = f"
  by (rule ext) simp

lemma slashInternal_eq:
  "slashInternal v w = (if slashFits v w then Inr (slashed v w) else Inl Panic)"
  by (simp add: slashInternal_def Let_def getVerifier_def reduceStake_Inr checked_def
        slashAmountOf_def slashed_def slashFits_def)

lemma countFault_eq:
  "countFault v ft w =
     (if verifierFaults (treasury w) v + 1 < 2 ^ 256
      then (if slashDue v w then slashInternal v (faultCounted v ft w)
            else Inr (faultCounted v ft w))
      else Inl Panic)"
  by (simp add: countFault_def Let_def checked_def slashDue_def faultCounted_def)

lemma slashed_simps [simp]:
  "isSlashed (treasury (slashed v w)) = (isSlashed (treasury w))(v := True)"
  "rewardPool (treasury (slashed v w)) = rewardPool (treasury w) + slashAmountOf v w"
  "verifierFaults (treasury (slashed v w)) = verifierFaults (treasury w)"
  "slashingDisabled (treasury (slashed v w)) = slashingDisabled (treasury w)"
  "faultThreshold (treasury (slashed v w)) = faultThreshold (treasury w)"
  "slashBps (treasury (slashed v w)) = slashBps (treasury w)"
  "t_productionOracle (treasury (slashed v w)) = t_productionOracle (treasury w)"
  "t_consumptionOracle (treasury (slashed v w)) = t_consumptionOracle (treasury w)"
  "stake (r_verifiers (registry (slashed v w)) u) =
     (if u = v then stake (r_verifiers (registry w) v) - slashAmountOf v w
      else stake (r_verifiers (registry w) u))"
  "faults (r_verifiers (registry (slashed v w)) u) = faults (r_verifiers (registry w) u)"
  "snapshots (registry (slashed v w)) = snapshots (registry w)"
  "nextSnapshotId (registry (slashed v w)) = nextSnapshotId (registry w)"
  "productionOracle (slashed v w) = productionOracle w"
  "hourlyCredits (slashed v w) = hourlyCredits w"
  by (simp_all add: slashed_def)

lemma faultCounted_simps [simp]:
  "registry (faultCounted v ft w) = registry w"
  "isSlashed (treasury (faultCounted v ft w)) = isSlashed (treasury w)"
  "rewardPool (treasury (faultCounted v ft w)) = rewardPool (treasury w)"
  "verifierFaults (treasury (faultCounted v ft w)) =
     (verifierFaults (treasury w))(v := verifierFaults (treasury w) v + 1)"
  "slashingDisabled (treasury (faultCounted v ft w)) = slashingDisabled (treasury w)"
  "faultThreshold (treasury (faultCounted v ft w)) = faultThreshold (treasury w)"
  "slashBps (treasury (faultCounted v ft w)) = slashBps (treasury w)"
  "t_productionOracle (treasury (faultCounted v ft w)) = t_productionOracle (treasury w)"
  "t_consumptionOracle (treasury (faultCounted v ft w)) = t_consumptionOracle (treasury w)"
  "productionOracle (faultCounted v ft w) = productionOracle w"
  "hourlyCredits (faultCounted v ft w) = hourlyCredits w"
  "slashAmountOf u (faultCounted v ft w) = slashAmountOf u w"
  "slashFits u (faultCounted v ft w) = slashFits u w"
  by (simp_all add: faultCounted_def slashAmountOf_def slashFits_def)

lemma countFault_cases:
  assumes "countFault v ft w = Inr w'"
  obtains (slash) "slashDue v w" and "w' = slashed v (faultCounted v ft w)"
        | (count) "\<not> slashDue v w" and "w' = faultCounted v ft w"
  using assms by (auto simp: countFault_eq slashInternal_eq split: if_splits)

lemma countFault_keeps_slashed:
  assumes "countFault u ft w = Inr w'" and "isSlashed (treasury w) v"
  shows "isSlashed (treasury w') v
       \<and> stake (r_verifiers (registry w') v) = stake (r_verifiers (registry w) v)"
  using assms(1)
proof (cases rule: countFault_cases)
  case slash
  with assms(2) have "u \<noteq> v" by (auto simp: slashDue_def)
  with slash assms(2) show ?thesis by simp
next
  case count
  with assms(2) show ?thesis by simp
qed

lemma countFault_registry_faults:
  assumes "countFault u ft w = Inr w'"
  shows "faults (r_verifiers (registry w') v) = faults (r_verifiers (registry w) v)"
  using assms by (cases rule: countFault_cases) simp_all

lemma recordFaultsLoop_keeps_slashed:
  assumes "recordFaultsLoop i vs bm ft w = Inr w'" and "isSlashed (treasury w) v"
  shows "isSlashed (treasury w') v
       \<and> stake (r_verifiers (registry w') v) = stake (r_verifiers (registry w) v)"
  using assms
proof (induction i vs bm ft w rule: recordFaultsLoop.induct)
  case (1 i vs bm ft w)
  show ?case
  proof (cases "i < length vs \<and> i < 16")
    case False
    with "1.prems" show ?thesis
      by (subst (asm) recordFaultsLoop.simps) auto
  next
    case inrange: True
    show ?thesis
    proof (cases "bm AND push_bit i 1 \<noteq> 0")
      case False
      with inrange "1.prems"(1) have "recordFaultsLoop (i + 1) vs bm ft w = Inr w'"
        by (subst (asm) recordFaultsLoop.simps) simp
      with "1.IH"(2) inrange False "1.prems"(2) show ?thesis by simp
    next
      case True
      with inrange "1.prems"(1) obtain w1 where c: "countFault (vs ! i) ft w = Inr w1"
        and l: "recordFaultsLoop (i + 1) vs bm ft w1 = Inr w'"
        by (subst (asm) recordFaultsLoop.simps) (simp split: sum.splits)
      note k = countFault_keeps_slashed [OF c "1.prems"(2)]
      from "1.IH"(1) [OF inrange True c l] k show ?thesis by simp
    qed
  qed
qed

section \<open>Treasury: where faults are counted\<close>

text \<open>
  C9. \<open>recordFault\<close> counts the fault in the Treasury's own \<open>verifierFaults\<close>; the \<open>faults\<close> field
  of the Registry's Verifier record, which \<open>getVerifier\<close> returns, keeps its value.
\<close>

theorem recordFault_registry_faults_unchanged:
  "\<not> isl (recordFault 500 7 WrongValue stakedWorld)
   \<and> verifierFaults (treasury stakedWorld) 7 = 0
   \<and> verifierFaults (treasury (projr (recordFault 500 7 WrongValue stakedWorld))) 7 = 1
   \<and> faults (getVerifier 7 (registry stakedWorld)) = 0
   \<and> faults (getVerifier 7 (registry (projr (recordFault 500 7 WrongValue stakedWorld)))) = 0"
proof -
  have auth: "authorizedOracle 500 (treasury stakedWorld)"
    by (simp add: authorizedOracle_def stakedWorld_def deployment_defs)
  have nodue: "\<not> slashDue 7 stakedWorld"
    by (simp add: slashDue_def stakedWorld_def deployment_defs)
  have small: "verifierFaults (treasury stakedWorld) 7 = 0"
    by (simp add: stakedWorld_def deployment_defs)
  have run: "recordFault 500 7 WrongValue stakedWorld = Inr (faultCounted 7 WrongValue stakedWorld)"
    using auth nodue small by (simp add: recordFault_def countFault_eq)
  have "faults (getVerifier 7 (registry stakedWorld)) = 0"
    by (simp add: getVerifier_def stakedWorld_def deployment_defs)
  with small show ?thesis
    by (simp add: run getVerifier_def)
qed

section \<open>Treasury: bitmaps and reward distribution\<close>

lemma bit_test:
  "(bm :: 16 word) AND push_bit i 1 \<noteq> 0 \<longleftrightarrow> bit bm i"
  "bm AND 2 ^ i \<noteq> 0 \<longleftrightarrow> bit bm i"
  "bm AND 2 ^ i = 0 \<longleftrightarrow> \<not> bit bm i"
  by (simp_all add: and_exp_eq_0_iff_not_bit)

lemma unat_and_1: "unat ((b :: 16 word) AND 1) = (if bit b 0 then 1 else 0)"
proof -
  have "unat (b AND 1) = unat (b mod 2)"
    by (simp only: and_one_eq)
  also have "\<dots> = unat b mod unat (2 :: 16 word)"
    by (rule unat_mod)
  also have "unat (2 :: 16 word) = 2"
    by simp
  finally have m: "unat (b AND 1) = unat b mod 2" .
  have "bit (unat b) 0 \<longleftrightarrow> bit b 0"
    by (simp add: bit_unsigned_iff)
  then have "odd (unat b) \<longleftrightarrow> bit b 0"
    by (simp only: bit_0 [of "unat b"])
  with m show ?thesis
    by presburger
qed

lemma count_from_0:
  "length (filter P [0..<Suc n]) = (if P 0 then 1 else 0) + length (filter (\<lambda>j. P (Suc j)) [0..<n])"
  by (induction n) auto

lemma count_to_n:
  "\<not> Q n \<Longrightarrow> length (filter Q [0..<Suc n]) = length (filter Q [0..<n])"
  by simp

lemma setBits_alt: "setBits b = filter (bit b) [0..<Suc 15]"
  by (simp add: setBits_def)

lemma setBits_0: "setBits 0 = []"
  by (simp add: setBits_def)

lemma setBits_step:
  "length (setBits b) = unat (b AND 1) + length (setBits (drop_bit 1 b))"
proof -
  have top: "\<not> bit (drop_bit 1 b) 15"
    using bit_imp_le_length [of b 16] by (auto simp: bit_drop_bit_eq)
  have shift: "(\<lambda>j. bit b (Suc j)) = bit (drop_bit 1 b)"
    by (rule ext) (simp add: bit_drop_bit_eq)
  have "length (setBits b)
          = (if bit b 0 then 1 else 0) + length (filter (bit (drop_bit 1 b)) [0..<15])"
    by (subst setBits_alt, subst count_from_0, subst shift) (rule refl)
  also have "length (filter (bit (drop_bit 1 b)) [0..<15]) = length (setBits (drop_bit 1 b))"
    by (subst setBits_alt, subst count_to_n, rule top) (rule refl)
  finally show ?thesis
    by (subst unat_and_1)
qed

lemma popcountLoop_eq: "popcountLoop b c = c + length (setBits b)"
proof (induction b c rule: popcountLoop.induct)
  case (1 bitmap cnt)
  show ?case
  proof (cases "bitmap = 0")
    case True
    then show ?thesis by (subst popcountLoop.simps) (simp add: setBits_0)
  next
    case False
    with "1" show ?thesis
      by (subst popcountLoop.simps) (simp add: setBits_step [of bitmap])
  qed
qed

lemma popcount_eq: "popcount b = length (setBits b)"
  by (simp add: popcount_def popcountLoop_eq)

lemma bit16: "bit (bm :: 16 word) j \<Longrightarrow> j < 16"
  using bit_imp_le_length [of bm j] by simp

lemma setBits_below:
  "filter (bit (bm :: 16 word)) [0..<min n 16] = filter (bit bm) [0..<n]"
proof (cases "n \<le> 16")
  case True
  then show ?thesis by (simp add: min_def)
next
  case False
  then have "[0..<n] = [0..<16] @ [16..<n]"
    using upt_add_eq_append [of 0 16 "n - 16"] by simp
  moreover have "filter (bit bm) [16..<n] = []"
    using bit16 [of bm] by (fastforce simp: filter_empty_conv)
  ultimately show ?thesis
    using False by (simp add: min_def)
qed

lemma distributeLoop_result:
  assumes "distributeLoop i vs bm r pending d = Inr (pending', d')"
  shows "d' = d + r * length (filter (bit bm) [i..<min (length vs) 16])
       \<and> (\<forall>v. pending' v = pending v
              + r * length (filter (\<lambda>j. bit bm j \<and> vs ! j = v) [i..<min (length vs) 16]))"
  using assms
proof (induction i vs bm r pending d rule: distributeLoop.induct)
  case (1 i vs bm r pending d)
  show ?case
  proof (cases "i < length vs \<and> i < 16")
    case False
    then have "min (length vs) 16 \<le> i"
      by auto
    moreover from False "1.prems" have "pending' = pending" "d' = d"
      by (subst (asm) distributeLoop.simps, simp)+
    ultimately show ?thesis by simp
  next
    case inrange: True
    then have upt: "[i..<min (length vs) 16] = i # [i + 1..<min (length vs) 16]"
      by (simp add: upt_conv_Cons)
    show ?thesis
    proof (cases "bit bm i")
      case False
      with inrange "1.prems" have "distributeLoop (i + 1) vs bm r pending d = Inr (pending', d')"
        by (subst (asm) distributeLoop.simps) (simp add: bit_test)
      with "1.IH"(2) inrange False show ?thesis
        by (simp add: bit_test upt)
    next
      case True
      with inrange "1.prems"
      have fits: "pending (vs ! i) + r < 2 ^ 256" "d + r < 2 ^ 256"
        and rest: "distributeLoop (i + 1) vs bm r (pending(vs ! i := pending (vs ! i) + r)) (d + r)
                     = Inr (pending', d')"
        by (subst (asm) distributeLoop.simps,
            simp add: bit_test checked_def split: if_splits sum.splits)+
      have c1: "checked 256 (pending (vs ! i) + r) = Inr (pending (vs ! i) + r)"
        and c2: "checked 256 (d + r) = Inr (d + r)"
        using fits by (simp_all add: checked_def)
      from "1.IH"(1) [OF inrange _ c1 c2 rest] True
      have "d' = d + r + r * length (filter (bit bm) [i + 1..<min (length vs) 16])
          \<and> (\<forall>v. pending' v = (pending(vs ! i := pending (vs ! i) + r)) v
                 + r * length (filter (\<lambda>j. bit bm j \<and> vs ! j = v) [i + 1..<min (length vs) 16]))"
        by (simp add: bit_test)
      with True show ?thesis
        by (simp add: upt)
    qed
  qed
qed


lemma setBits_within:
  assumes "\<forall>j. bit (bm :: 16 word) j \<longrightarrow> j < n"
  shows "filter (bit bm) [0..<n] = setBits bm"
proof (cases "n \<le> 16")
  case False
  then show ?thesis
    using setBits_below [of bm n] by (simp add: setBits_def min_def)
next
  case True
  then have "[0..<16] = [0..<n] @ [n..<16]"
    using upt_add_eq_append [of 0 n "16 - n"] by simp
  moreover have "filter (bit bm) [n..<16] = []"
    using assms by (fastforce simp: filter_empty_conv)
  ultimately show ?thesis
    by (simp add: setBits_def)
qed

lemma one_position:
  assumes "distinct vs" and "j < length vs" and "bit (bm :: 16 word) j"
  shows "length (filter (\<lambda>k. bit bm k \<and> vs ! k = vs ! j) [0..<length vs]) = 1"
proof -
  have "{k. bit bm k \<and> vs ! k = vs ! j} \<inter> set [0..<length vs] = {j}"
    using assms by (auto simp: nth_eq_iff_index_eq)
  then show ?thesis
    by (simp add: distinct_length_filter)
qed

lemma distributeRewards_zero:
  assumes "authorizedOracle sender (treasury w)"
    and "popcount bm = 0 \<or> wh = 0 \<or> rewardPerWhWei (treasury w) = 0"
  shows "distributeRewards sender bm sid wh w = Inr (noted (RewardsDistributed bm sid 0) w)"
proof (cases "popcount bm = 0")
  case True
  with assms(1) show ?thesis
    by (simp add: distributeRewards_def Let_def noted_def)
next
  case False
  with assms(2) have "checked 256 (wh * rewardPerWhWei (treasury w)) = Inr 0"
    by (auto simp: checked_def)
  with assms(1) False show ?thesis
    by (simp add: distributeRewards_def Let_def noted_def)
qed

lemma distributeRewards_insufficient:
  assumes "authorizedOracle sender (treasury w)" and "popcount bm \<noteq> 0"
    and "wh * rewardPerWhWei (treasury w) \<noteq> 0"
    and "wh * rewardPerWhWei (treasury w) < 2 ^ 256"
    and "rewardPool (treasury w) < wh * rewardPerWhWei (treasury w)"
  shows "distributeRewards sender bm sid wh w = Inl InsufficientRewardPool"
  using assms by (simp add: distributeRewards_def Let_def checked_def)

lemma distributeRewards_paid:
  assumes "distributeRewards sender bm sid wh w = Inr w'"
    and "popcount bm \<noteq> 0" and "wh * rewardPerWhWei (treasury w) \<noteq> 0"
  obtains pending distributed where
    "distributeLoop 0 (getSnapshotVerifiers sid (registry w)) bm
       (wh * rewardPerWhWei (treasury w) div popcount bm) (pendingRewards (treasury w)) 0
       = Inr (pending, distributed)"
    and "distributed \<le> rewardPool (treasury w)"
    and "w' = rewarded bm sid pending distributed w"
proof -
  let ?loop = "distributeLoop 0 (getSnapshotVerifiers sid (registry w)) bm
       (wh * rewardPerWhWei (treasury w) div popcount bm) (pendingRewards (treasury w)) 0"
  from assms have total: "checked 256 (wh * rewardPerWhWei (treasury w))
                            = Inr (wh * rewardPerWhWei (treasury w))"
    by (auto simp: distributeRewards_def Let_def checked_def split: if_splits)
  with assms have run: "(case ?loop of Inl e \<Rightarrow> Inl e
      | Inr (pending, distributed) \<Rightarrow>
          (case checked_sub (rewardPool (treasury w)) distributed of Inl e \<Rightarrow> Inl e
           | Inr pool \<Rightarrow> Inr (w\<lparr>treasury := (treasury w)\<lparr> pendingRewards := pending,
                rewardPool := pool,
                t_events := t_events (treasury w) @ [RewardsDistributed bm sid distributed] \<rparr>\<rparr>)))
      = Inr w'"
    by (simp add: distributeRewards_def Let_def split: if_splits)
  then obtain pending distributed where l: "?loop = Inr (pending, distributed)"
    by (cases ?loop) auto
  with run have "distributed \<le> rewardPool (treasury w)"
    and "w' = rewarded bm sid pending distributed w"
    by (auto simp: checked_sub_def rewarded_def split: if_splits)
  with l show thesis
    by (rule that)
qed


lemma rewarded_simps [simp]:
  "registry (rewarded bm sid pending distributed w) = registry w"
  "productionOracle (rewarded bm sid pending distributed w) = productionOracle w"
  "hourlyCredits (rewarded bm sid pending distributed w) = hourlyCredits w"
  "pendingRewards (treasury (rewarded bm sid pending distributed w)) = pending"
  "rewardPool (treasury (rewarded bm sid pending distributed w))
     = rewardPool (treasury w) - distributed"
  by (simp_all add: rewarded_def)

text \<open>
  C5 (as amended). For a call by an authorized oracle: with no winner bit set, zero energy or
  a zero reward rate the call only logs a zero \<open>RewardsDistributed\<close> event. Otherwise, with
  \<open>total = wh * rewardPerWhWei\<close>, it fails \<open>InsufficientRewardPool\<close> when \<open>total\<close> (within
  \<^verbatim>\<open>uint256\<close>) exceeds the pool; and when it returns, with \<open>perWinner = total div popcount\<close>, every
  address gains \<open>perWinner\<close> for each snapshot position below the snapshot's length that holds
  it and has its bit set, the pool falls by \<open>perWinner\<close> times the number of set bits below the
  snapshot's length, and nothing else but the event log changes. When every set bit is below
  the snapshot's length that number is \<open>popcount\<close>, and in a snapshot without repetitions a
  verifier whose bit is set stands at exactly one such position. Any other caller is refused.
\<close>

theorem distributeRewards_spec:
  "(authorizedOracle sender (treasury w)
      \<and> (popcount bm = 0 \<or> wh = 0 \<or> rewardPerWhWei (treasury w) = 0)
      \<longrightarrow> distributeRewards sender bm sid wh w = Inr (noted (RewardsDistributed bm sid 0) w))
   \<and> (authorizedOracle sender (treasury w) \<and> popcount bm \<noteq> 0
        \<and> wh * rewardPerWhWei (treasury w) \<noteq> 0 \<and> wh * rewardPerWhWei (treasury w) < 2 ^ 256
        \<and> rewardPool (treasury w) < wh * rewardPerWhWei (treasury w)
      \<longrightarrow> distributeRewards sender bm sid wh w = Inl InsufficientRewardPool)
   \<and> (popcount bm \<noteq> 0 \<and> wh * rewardPerWhWei (treasury w) \<noteq> 0
        \<and> distributeRewards sender bm sid wh w = Inr w'
      \<longrightarrow> (\<forall>v. pendingRewards (treasury w') v = pendingRewards (treasury w) v
                + (wh * rewardPerWhWei (treasury w) div popcount bm)
                  * length (filter (\<lambda>j. bit bm j \<and> getSnapshotVerifiers sid (registry w) ! j = v)
                      [0..<length (getSnapshotVerifiers sid (registry w))]))
        \<and> rewardPool (treasury w')
            + (wh * rewardPerWhWei (treasury w) div popcount bm)
              * length (filter (bit bm) [0..<length (getSnapshotVerifiers sid (registry w))])
            = rewardPool (treasury w)
        \<and> registry w' = registry w \<and> productionOracle w' = productionOracle w
        \<and> hourlyCredits w' = hourlyCredits w)
   \<and> ((\<forall>j. bit bm j \<longrightarrow> j < length vs) \<longrightarrow> length (filter (bit bm) [0..<length vs]) = popcount bm)
   \<and> (distinct vs \<and> j < length vs \<and> bit bm j
      \<longrightarrow> length (filter (\<lambda>k. bit bm k \<and> vs ! k = vs ! j) [0..<length vs]) = 1)
   \<and> (\<not> authorizedOracle sender (treasury w)
      \<longrightarrow> distributeRewards sender bm sid wh w = Inl OnlyAuthorizedOracle)"
proof (intro conjI impI)
  assume "authorizedOracle sender (treasury w)
      \<and> (popcount bm = 0 \<or> wh = 0 \<or> rewardPerWhWei (treasury w) = 0)"
  then show "distributeRewards sender bm sid wh w = Inr (noted (RewardsDistributed bm sid 0) w)"
    by (intro distributeRewards_zero) simp_all
next
  assume "authorizedOracle sender (treasury w) \<and> popcount bm \<noteq> 0
        \<and> wh * rewardPerWhWei (treasury w) \<noteq> 0 \<and> wh * rewardPerWhWei (treasury w) < 2 ^ 256
        \<and> rewardPool (treasury w) < wh * rewardPerWhWei (treasury w)"
  then show "distributeRewards sender bm sid wh w = Inl InsufficientRewardPool"
    by (intro distributeRewards_insufficient) simp_all
next
  let ?vs = "getSnapshotVerifiers sid (registry w)"
  let ?r = "wh * rewardPerWhWei (treasury w) div popcount bm"
  assume a: "popcount bm \<noteq> 0 \<and> wh * rewardPerWhWei (treasury w) \<noteq> 0
        \<and> distributeRewards sender bm sid wh w = Inr w'"
  then obtain pending distributed
    where loop: "distributeLoop 0 ?vs bm ?r (pendingRewards (treasury w)) 0
                   = Inr (pending, distributed)"
      and le: "distributed \<le> rewardPool (treasury w)"
      and w': "w' = rewarded bm sid pending distributed w"
    by (elim conjE distributeRewards_paid)
  from distributeLoop_result [OF loop]
  have d: "distributed = ?r * length (filter (bit bm) [0..<length ?vs])"
    and p: "\<And>v. pending v = pendingRewards (treasury w) v
              + ?r * length (filter (\<lambda>j. bit bm j \<and> ?vs ! j = v) [0..<min (length ?vs) 16])"
    by (simp_all add: setBits_below)
  have cut: "filter (\<lambda>j. bit bm j \<and> ?vs ! j = v) [0..<min (length ?vs) 16]
           = filter (\<lambda>j. bit bm j \<and> ?vs ! j = v) [0..<length ?vs]" for v
  proof -
    have "filter (\<lambda>j. ?vs ! j = v) (filter (bit bm) [0..<min (length ?vs) 16])
        = filter (\<lambda>j. ?vs ! j = v) (filter (bit bm) [0..<length ?vs])"
      by (simp only: setBits_below)
    then show ?thesis
      by (simp add: conj_commute)
  qed
  show "\<forall>v. pendingRewards (treasury w') v = pendingRewards (treasury w) v
          + ?r * length (filter (\<lambda>j. bit bm j \<and> ?vs ! j = v) [0..<length ?vs])"
    using p by (simp add: w' cut)
  show "rewardPool (treasury w') + ?r * length (filter (bit bm) [0..<length ?vs])
          = rewardPool (treasury w)"
    using le d by (simp add: w')
  show "registry w' = registry w" "productionOracle w' = productionOracle w"
    "hourlyCredits w' = hourlyCredits w"
    by (simp_all add: w')
next
  assume "\<forall>j. bit bm j \<longrightarrow> j < length vs"
  then show "length (filter (bit bm) [0..<length vs]) = popcount bm"
    by (simp add: setBits_within popcount_eq)
next
  assume "distinct vs \<and> j < length vs \<and> bit bm j"
  then show "length (filter (\<lambda>k. bit bm k \<and> vs ! k = vs ! j) [0..<length vs]) = 1"
    by (intro one_position) simp_all
next
  assume "\<not> authorizedOracle sender (treasury w)"
  then show "distributeRewards sender bm sid wh w = Inl OnlyAuthorizedOracle"
    by (simp add: distributeRewards_def Let_def)
qed

lemma fundedWorld_eval:
  "getSnapshotVerifiers 1 (registry fundedWorld) = [7, 9]"
  "getSnapshotVerifiers (Suc 0) (registry fundedWorld) = [7, 9]"
  "treasury fundedWorld = treasury0\<lparr>rewardPool := 10 ^ 18\<rparr>"
  by (simp_all add: fundedWorld_def registry2_def activateVerifier_def deployment_defs Let_def
        createSnapshot_def checked_def sortAddresses_def sortOuter.simps sortInner.simps
        getSnapshotVerifiers_def)

lemma popcount_values: "popcount 0 = 0" "popcount 3 = 2" "popcount 7 = 3"
  by (simp_all add: popcount_def popcountLoop.simps)

lemmas distribute_eval = distributeRewards_def authorizedOracle_def popcount_values
  distributeLoop.simps checked_def checked_sub_def Let_def treasury0_def
  fundedWorld_eval

theorem distributeRewards_spec_witness:
  "\<not> isl (distributeRewards 500 3 1 3 fundedWorld)
   \<and> pendingRewards (treasury (projr (distributeRewards 500 3 1 3 fundedWorld))) 7 = 1500000000000
   \<and> pendingRewards (treasury (projr (distributeRewards 500 3 1 3 fundedWorld))) 9 = 1500000000000
   \<and> rewardPool (treasury (projr (distributeRewards 500 3 1 3 fundedWorld))) + 3000000000000
       = 10 ^ 18
   \<and> distributeRewards 500 0 1 3 fundedWorld = Inr (noted (RewardsDistributed 0 1 0) fundedWorld)
   \<and> distributeRewards 500 3 1 (10 ^ 7) fundedWorld = Inl InsufficientRewardPool
   \<and> distributeRewards 77 3 1 3 fundedWorld = Inl OnlyAuthorizedOracle"
proof -
  have auth: "authorizedOracle 500 (treasury fundedWorld)"
    and unauth: "\<not> authorizedOracle 77 (treasury fundedWorld)"
    and rate: "rewardPerWhWei (treasury fundedWorld) = 10 ^ 12"
    and pool: "rewardPool (treasury fundedWorld) = 10 ^ 18"
    and pending: "pendingRewards (treasury fundedWorld) = (\<lambda>v. 0)"
    by (simp_all add: authorizedOracle_def fundedWorld_eval treasury0_def)
  note pop = popcount_values
  have "\<not> isl (distributeRewards 500 3 1 3 fundedWorld)"
    by (simp add: distribute_eval)
  then obtain w' where run: "distributeRewards 500 3 1 3 fundedWorld = Inr w'"
    by (cases "distributeRewards 500 3 1 3 fundedWorld") auto
  have pre: "popcount 3 \<noteq> 0 \<and> 3 * rewardPerWhWei (treasury fundedWorld) \<noteq> 0
      \<and> distributeRewards 500 3 1 3 fundedWorld = Inr w'"
    using run pop rate by simp
  from distributeRewards_spec [of 500 fundedWorld 3 3 1 w' "[]" 0] pre
  have paid: "\<forall>v. pendingRewards (treasury w') v = pendingRewards (treasury fundedWorld) v
                + (3 * rewardPerWhWei (treasury fundedWorld) div popcount 3)
                  * length (filter (\<lambda>j. bit (3 :: 16 word) j
                        \<and> getSnapshotVerifiers 1 (registry fundedWorld) ! j = v)
                      [0..<length (getSnapshotVerifiers 1 (registry fundedWorld))])"
    and left: "rewardPool (treasury w')
                 + (3 * rewardPerWhWei (treasury fundedWorld) div popcount 3)
                   * length (filter (bit (3 :: 16 word))
                       [0..<length (getSnapshotVerifiers 1 (registry fundedWorld))])
               = rewardPool (treasury fundedWorld)"
    by blast+
  have two: "[0..<Suc (Suc 0)] = [0, Suc 0]"
    by (simp add: upt_rec)
  have bits: "bit (3 :: 16 word) 0" "bit (3 :: 16 word) (Suc 0)"
    by (simp_all add: bit_0 bit_Suc)
  have p7: "pendingRewards (treasury w') 7 = 1500000000000"
    and p9: "pendingRewards (treasury w') 9 = 1500000000000"
    using paid bits by (simp_all add: pending two pop rate fundedWorld_eval(1,2))
  have l: "rewardPool (treasury w') + 3000000000000 = 10 ^ 18"
    using left bits by (simp add: pool two pop rate fundedWorld_eval(1,2))
  have "authorizedOracle 500 (treasury fundedWorld)
      \<and> (popcount 0 = 0 \<or> (3 :: nat) = 0 \<or> rewardPerWhWei (treasury fundedWorld) = 0)"
    using auth pop by simp
  with distributeRewards_spec [of 500 fundedWorld 0 3 1 w' "[]" 0]
  have zero: "distributeRewards 500 0 1 3 fundedWorld
                = Inr (noted (RewardsDistributed 0 1 0) fundedWorld)"
    by blast
  have "authorizedOracle 500 (treasury fundedWorld) \<and> popcount 3 \<noteq> 0
        \<and> 10 ^ 7 * rewardPerWhWei (treasury fundedWorld) \<noteq> 0
        \<and> 10 ^ 7 * rewardPerWhWei (treasury fundedWorld) < 2 ^ 256
        \<and> rewardPool (treasury fundedWorld) < 10 ^ 7 * rewardPerWhWei (treasury fundedWorld)"
    using auth pop by (simp add: rate pool)
  with distributeRewards_spec [of 500 fundedWorld 3 "10 ^ 7" 1 w' "[]" 0]
  have short: "distributeRewards 500 3 1 (10 ^ 7) fundedWorld = Inl InsufficientRewardPool"
    by blast
  from distributeRewards_spec [of 77 fundedWorld 3 3 1 w' "[]" 0] unauth
  have refused: "distributeRewards 77 3 1 3 fundedWorld = Inl OnlyAuthorizedOracle"
    by blast
  from p7 p9 l zero short refused show ?thesis
    unfolding run by simp
qed

text \<open>
  The claim as stated (the pool falls by \<open>perWinner * popcount\<close>) fails for a bitmap with a bit
  at or beyond the snapshot's length: with the two-verifier snapshot and the bitmap \<open>7\<close> the
  per-winner share is a third of the total, two shares are paid and the third stays in the pool.
\<close>

theorem distributeRewards_counterexample:
  "\<not> isl (distributeRewards 500 7 1 3 fundedWorld)
   \<and> getSnapshotVerifiers 1 (registry fundedWorld) = [7, 9]
   \<and> popcount 7 = 3
   \<and> 3 * rewardPerWhWei (treasury fundedWorld) div popcount 7 = 1000000000000
   \<and> rewardPool (treasury fundedWorld) = 1000000000000000000
   \<and> rewardPool (treasury (projr (distributeRewards 500 7 1 3 fundedWorld))) = 999998000000000000"
  by (simp add: distribute_eval)

section \<open>Registry: snapshots and verifier indices\<close>

lemma sortInner_step:
  "j < length arr \<Longrightarrow>
   sortInner i j arr =
     sortInner i (j + 1) (if arr ! i > arr ! j then arr[i := arr ! j, j := arr ! i] else arr)"
  by (subst sortInner.simps) (simp add: Let_def)

lemma sortInner_done: "\<not> j < length arr \<Longrightarrow> sortInner i j arr = arr"
  by (subst sortInner.simps) simp

lemma mset_sortInner: "i < j \<Longrightarrow> mset (sortInner i j arr) = mset arr"
proof (induction i j arr rule: sortInner.induct)
  case (1 i j arr)
  show ?case
  proof (cases "j < length arr")
    case False
    then show ?thesis by (simp add: sortInner_done)
  next
    case True
    show ?thesis
    proof (cases "arr ! i > arr ! j")
      case False
      with True "1.IH" "1.prems" show ?thesis
        by (simp add: sortInner_step)
    next
      case swap: True
      from True "1.prems" have "mset (arr[i := arr ! j, j := arr ! i]) = mset arr"
        by (simp add: mset_swap)
      with True swap "1.IH" "1.prems" show ?thesis
        by (simp add: sortInner_step Let_def)
    qed
  qed
qed

lemma take_sortInner: "i < j \<Longrightarrow> take i (sortInner i j arr) = take i arr"
proof (induction i j arr rule: sortInner.induct)
  case (1 i j arr)
  show ?case
  proof (cases "j < length arr")
    case False
    then show ?thesis by (simp add: sortInner_done)
  next
    case True
    show ?thesis
    proof (cases "arr ! i > arr ! j")
      case False
      with True "1.IH" "1.prems" show ?thesis
        by (simp add: sortInner_step)
    next
      case swap: True
      with True "1.IH" "1.prems" show ?thesis
        by (simp add: sortInner_step Let_def)
    qed
  qed
qed

text \<open>the inner loop leaves the smallest element from position \<open>i\<close> on at position \<open>i\<close>\<close>
lemma sortInner_min:
  assumes "i < j" and "\<forall>k. i < k \<and> k < j \<and> k < length arr \<longrightarrow> arr ! i \<le> arr ! k"
  shows "\<forall>k. i < k \<and> k < length arr \<longrightarrow> sortInner i j arr ! i \<le> sortInner i j arr ! k"
  using assms
proof (induction i j arr rule: sortInner.induct)
  case (1 i j arr)
  show ?case
  proof (cases "j < length arr")
    case False
    with "1.prems" show ?thesis by (simp add: sortInner_done)
  next
    case True
    let ?arr = "if arr ! i > arr ! j then arr[i := arr ! j, j := arr ! i] else arr"
    have len: "length ?arr = length arr"
      by simp
    have "\<forall>k. i < k \<and> k < j + 1 \<and> k < length ?arr \<longrightarrow> ?arr ! i \<le> ?arr ! k"
    proof (intro allI impI)
      fix k assume k: "i < k \<and> k < j + 1 \<and> k < length ?arr"
      show "?arr ! i \<le> ?arr ! k"
      proof (cases "arr ! i > arr ! j")
        case False
        with k "1.prems" True show ?thesis
          by (cases "k = j") auto
      next
        case swap: True
        with k "1.prems" True show ?thesis
          by (cases "k = j") (auto simp: nth_list_update)
      qed
    qed
    moreover have "?arr = (if arr ! i > arr ! j
        then (let temp = arr ! i in (arr[i := arr ! j])[j := temp]) else arr)"
      by (simp add: Let_def)
    ultimately have "\<forall>k. i < k \<and> k < length ?arr
        \<longrightarrow> sortInner i (j + 1) ?arr ! i \<le> sortInner i (j + 1) ?arr ! k"
      using "1.IH" [OF True] "1.prems"(1) by simp
    then show ?thesis
      unfolding sortInner_step [OF True] len .
  qed
qed

lemma sortOuter_step:
  "i < length arr \<Longrightarrow> sortOuter i arr = sortOuter (i + 1) (sortInner i (i + 1) arr)"
  by (subst sortOuter.simps) simp

lemma sortOuter_done: "\<not> i < length arr \<Longrightarrow> sortOuter i arr = arr"
  by (subst sortOuter.simps) simp

lemma mset_sortOuter: "mset (sortOuter i arr) = mset arr"
proof (induction i arr rule: sortOuter.induct)
  case (1 i arr)
  show ?case
  proof (cases "i < length arr")
    case True
    then have "mset (sortOuter i arr) = mset (sortInner i (i + 1) arr)"
      using "1.IH" by (subst sortOuter_step) simp_all
    then show ?thesis
      by (simp add: mset_sortInner)
  next
    case False
    then show ?thesis
      by (simp add: sortOuter_done)
  qed
qed

lemma sortedUpTo_sortInner:
  assumes "sortedUpTo i arr" and "i < length arr"
  shows "sortedUpTo (Suc i) (sortInner i (Suc i) arr)"
proof -
  let ?arr = "sortInner i (Suc i) arr"
  have len: "i < length ?arr"
    using assms(2) by simp
  have tk: "take i ?arr = take i arr"
    by (simp add: take_sortInner)
  have "mset (take i ?arr) + mset (drop i ?arr) = mset (take i arr) + mset (drop i arr)"
    by (simp only: mset_append [symmetric] append_take_drop_id) (simp add: mset_sortInner)
  then have "mset (drop i ?arr) = mset (drop i arr)"
    unfolding tk by (rule add_left_imp_eq)
  then have dr: "set (drop i ?arr) = set (drop i arr)"
    by (rule mset_eq_setD)
  have least: "\<forall>k. i < k \<and> k < length arr \<longrightarrow> ?arr ! i \<le> ?arr ! k"
    by (rule sortInner_min) simp_all
  have here: "?arr ! i \<in> set (drop i ?arr)"
    using len by (metis Cons_nth_drop_Suc list.set_intros(1))
  have tk1: "take (Suc i) ?arr = take i ?arr @ [?arr ! i]"
    using len by (simp add: take_Suc_conv_app_nth)
  have below: "\<forall>x \<in> set (take i ?arr). x \<le> ?arr ! i"
    using assms(1) here by (simp add: sortedUpTo_def tk dr)
  have s: "sorted (take (Suc i) ?arr)"
    using assms(1) below by (simp add: tk1 sorted_append sortedUpTo_def tk)
  have later: "\<forall>y \<in> set (drop (Suc i) ?arr). ?arr ! i \<le> y"
  proof
    fix y assume "y \<in> set (drop (Suc i) ?arr)"
    then obtain k where "k < length ?arr - (Suc i)" and "y = ?arr ! (Suc i + k)"
      by (auto simp: in_set_conv_nth)
    with least show "?arr ! i \<le> y"
      by simp
  qed
  have sub: "set (drop (Suc i) ?arr) \<subseteq> set (drop i ?arr)"
    by (rule set_drop_subset_set_drop) simp
  have "\<forall>x \<in> set (take (Suc i) ?arr). \<forall>y \<in> set (drop (Suc i) ?arr). x \<le> y"
    using assms(1) later sub by (auto simp: tk1 sortedUpTo_def tk dr)
  with s show ?thesis
    by (simp add: sortedUpTo_def)
qed

lemma sorted_sortOuter: "sortedUpTo i arr \<Longrightarrow> sorted (sortOuter i arr)"
proof (induction i arr rule: sortOuter.induct)
  case (1 i arr)
  show ?case
  proof (cases "i < length arr")
    case True
    from sortedUpTo_sortInner [OF "1.prems" True]
    have "sorted (sortOuter (i + 1) (sortInner i (i + 1) arr))"
      by (intro "1.IH" [OF True]) simp
    then show ?thesis
      by (subst sortOuter_step [OF True])
  next
    case False
    with "1.prems" show ?thesis
      by (simp add: sortOuter_done sortedUpTo_def)
  qed
qed

lemma sortAddresses_sort: "sortAddresses arr = sort arr"
proof -
  have "sorted (sortAddresses arr)"
    unfolding sortAddresses_def by (rule sorted_sortOuter) (simp add: sortedUpTo_def)
  moreover have "mset (sortAddresses arr) = mset arr"
    by (simp add: sortAddresses_def mset_sortOuter)
  ultimately show ?thesis
    by (simp add: properties_for_sort)
qed


lemma verifierIndexLoop_absent:
  "v \<notin> set (drop i vs) \<Longrightarrow> verifierIndexLoop i vs v = Inl VerifierNotInSnapshot"
proof (induction i vs v rule: verifierIndexLoop.induct)
  case (1 i vs v)
  show ?case
  proof (cases "i < length vs")
    case False
    then show ?thesis by (subst verifierIndexLoop.simps) simp
  next
    case True
    then have d: "drop i vs = vs ! i # drop (i + 1) vs"
      by (simp add: Cons_nth_drop_Suc)
    with "1.prems" have "vs ! i \<noteq> v" and "v \<notin> set (drop (i + 1) vs)"
      by auto
    with True "1.IH" show ?thesis
      by (subst verifierIndexLoop.simps) simp
  qed
qed

lemma verifierIndexLoop_present:
  "v \<in> set (drop i vs) \<Longrightarrow>
   verifierIndexLoop i vs v = Inr ((i + positionIn v (drop i vs)) mod 256)"
proof (induction i vs v rule: verifierIndexLoop.induct)
  case (1 i vs v)
  from "1.prems" have inrange: "i < length vs"
    by (cases "i < length vs") auto
  then have d: "drop i vs = vs ! i # drop (i + 1) vs"
    by (simp add: Cons_nth_drop_Suc)
  show ?case
  proof (cases "vs ! i = v")
    case True
    with inrange show ?thesis
      by (subst verifierIndexLoop.simps) (simp add: d positionIn_def)
  next
    case False
    with "1.prems" have "v \<in> set (drop (i + 1) vs)"
      by (simp add: d)
    with "1.IH" [OF inrange False]
    have "verifierIndexLoop (i + 1) vs v = Inr ((i + 1 + positionIn v (drop (i + 1) vs)) mod 256)"
      by simp
    with inrange False show ?thesis
      by (subst verifierIndexLoop.simps) (simp add: d positionIn_def)
  qed
qed

lemma getVerifierIndex_present:
  "v \<in> set (getSnapshotVerifiers sid r) \<Longrightarrow>
   getVerifierIndex sid v r = Inr (positionIn v (getSnapshotVerifiers sid r) mod 256)"
  using verifierIndexLoop_present [of v 0 "verifiers (snapshots r sid)"]
  by (simp add: getVerifierIndex_def getSnapshotVerifiers_def)

lemma getVerifierIndex_absent:
  "v \<notin> set (getSnapshotVerifiers sid r) \<Longrightarrow> getVerifierIndex sid v r = Inl VerifierNotInSnapshot"
  using verifierIndexLoop_absent [of v 0 "verifiers (snapshots r sid)"]
  by (simp add: getVerifierIndex_def getSnapshotVerifiers_def)

lemma positionIn_less: "v \<in> set vs \<Longrightarrow> positionIn v vs < length vs"
  unfolding positionIn_def by (induction vs) auto

lemma positionIn_sorted:
  "sorted vs \<Longrightarrow> v \<in> set vs \<Longrightarrow> takeWhile (\<lambda>u. u \<noteq> v) vs = filter (\<lambda>u. u < v) vs"
proof (induction vs)
  case Nil
  then show ?case by simp
next
  case (Cons y ys)
  show ?case
  proof (cases "y = v")
    case True
    with Cons.prems(1) have "\<forall>u \<in> set ys. \<not> u < v"
      by auto
    then have "filter (\<lambda>u. u < v) ys = []"
      by (simp add: filter_empty_conv)
    with True show ?thesis by simp
  next
    case False
    with Cons.prems have "v \<in> set ys" and "y < v"
      by auto
    with Cons.IH Cons.prems(1) False show ?thesis by simp
  qed
qed

lemma positionIn_sort:
  assumes "v \<in> set vs"
  shows "positionIn v (sort vs) = length (filter (\<lambda>u. u < v) vs)"
proof -
  have "positionIn v (sort vs) = length (filter (\<lambda>u. u < v) (sort vs))"
    using assms by (simp add: positionIn_def positionIn_sorted)
  also have "\<dots> = size (filter_mset (\<lambda>u. u < v) (mset (sort vs)))"
    by (simp only: mset_filter [symmetric] size_mset)
  also have "\<dots> = length (filter (\<lambda>u. u < v) vs)"
    by (simp only: mset_sort mset_filter [symmetric] size_mset)
  finally show ?thesis .
qed

lemma createSnapshot_verifiers:
  assumes "createSnapshot sender claimKey now r = Inr (sid, r')"
  shows "getSnapshotVerifiers sid r' = sort (activeVerifiers r)"
  using assms
  by (auto simp: createSnapshot_def Let_def getSnapshotVerifiers_def sortAddresses_sort
           split: if_splits sum.splits)

text \<open>
  What the two functions compute. After a successful \<open>createSnapshot\<close> the snapshot is the
  ascending sort of the active verifier list, and \<open>getVerifierIndex\<close> returns the low eight bits
  of the position of an active verifier in that sort, which is the position itself as long as
  the active set has at most 256 members. For an address that is not in a snapshot
  \<open>getVerifierIndex\<close> fails with \<open>VerifierNotInSnapshot\<close>.
\<close>

lemma snapshot_index_roundtrip:
  "(createSnapshot sender claimKey now r = Inr (sid, r') \<longrightarrow>
      getSnapshotVerifiers sid r' = sort (activeVerifiers r)
    \<and> (v \<in> set (activeVerifiers r) \<longrightarrow>
          getVerifierIndex sid v r' = Inr (positionIn v (sort (activeVerifiers r)) mod 256)
        \<and> positionIn v (sort (activeVerifiers r))
            = length (filter (\<lambda>u. u < v) (activeVerifiers r))
        \<and> positionIn v (sort (activeVerifiers r)) < length (activeVerifiers r)
        \<and> (length (activeVerifiers r) \<le> 256 \<longrightarrow>
              getVerifierIndex sid v r' = Inr (positionIn v (sort (activeVerifiers r)))))
    \<and> (v \<notin> set (activeVerifiers r) \<longrightarrow> getVerifierIndex sid v r' = Inl VerifierNotInSnapshot))
   \<and> (a \<notin> set (getSnapshotVerifiers s r0) \<longrightarrow> getVerifierIndex s a r0 = Inl VerifierNotInSnapshot)"
proof (intro conjI impI)
  assume c: "createSnapshot sender claimKey now r = Inr (sid, r')"
  note vs = createSnapshot_verifiers [OF c]
  show "getSnapshotVerifiers sid r' = sort (activeVerifiers r)"
    by (rule vs)
  {
    assume v: "v \<in> set (activeVerifiers r)"
    then have mem: "v \<in> set (getSnapshotVerifiers sid r')"
      by (simp add: vs)
    show idx: "getVerifierIndex sid v r' = Inr (positionIn v (sort (activeVerifiers r)) mod 256)"
      using getVerifierIndex_present [OF mem] by (simp add: vs)
    show "positionIn v (sort (activeVerifiers r)) = length (filter (\<lambda>u. u < v) (activeVerifiers r))"
      by (rule positionIn_sort [OF v])
    show less: "positionIn v (sort (activeVerifiers r)) < length (activeVerifiers r)"
      using positionIn_less [of v "sort (activeVerifiers r)"] v by simp
    assume "length (activeVerifiers r) \<le> 256"
    with less idx show "getVerifierIndex sid v r' = Inr (positionIn v (sort (activeVerifiers r)))"
      by simp
  }
  assume "v \<notin> set (activeVerifiers r)"
  then show "getVerifierIndex sid v r' = Inl VerifierNotInSnapshot"
    by (intro getVerifierIndex_absent) (simp add: vs)
next
  assume "a \<notin> set (getSnapshotVerifiers s r0)"
  then show "getVerifierIndex s a r0 = Inl VerifierNotInSnapshot"
    by (rule getVerifierIndex_absent)
qed

lemma registry3_eval:
  "activeVerifiers registry3 = [9, 7, 8]"
  "r_productionOracle registry3 = 500"
  "claimKeyToSnapshotId registry3 = (\<lambda>k. 0)"
  "nextSnapshotId registry3 = 1"
  by (simp_all add: registry3_def activateVerifier_def deployment_defs Let_def)

lemma snapshot_index_roundtrip_example:
  "\<not> isl (createSnapshot 500 (1, 500000) 1000 registry3)
   \<and> getSnapshotVerifiers (fst (projr (createSnapshot 500 (1, 500000) 1000 registry3)))
        (snd (projr (createSnapshot 500 (1, 500000) 1000 registry3))) = [7, 8, 9]
   \<and> getVerifierIndex (fst (projr (createSnapshot 500 (1, 500000) 1000 registry3))) 9
        (snd (projr (createSnapshot 500 (1, 500000) 1000 registry3))) = Inr 2
   \<and> getVerifierIndex (fst (projr (createSnapshot 500 (1, 500000) 1000 registry3))) 7
        (snd (projr (createSnapshot 500 (1, 500000) 1000 registry3))) = Inr 0
   \<and> getVerifierIndex (fst (projr (createSnapshot 500 (1, 500000) 1000 registry3))) 5
        (snd (projr (createSnapshot 500 (1, 500000) 1000 registry3))) = Inl VerifierNotInSnapshot"
proof -
  have "\<not> isl (createSnapshot 500 (1, 500000) 1000 registry3)"
    by (simp add: createSnapshot_def registry3_eval checked_def Let_def)
  then obtain sid r' where run: "createSnapshot 500 (1, 500000) 1000 registry3 = Inr (sid, r')"
    by (cases "createSnapshot 500 (1, 500000) 1000 registry3") auto
  have srt: "sort [9, 7, 8 :: nat] = [7, 8, 9]"
    by simp
  have pos: "positionIn 9 [7, 8, 9] = 2" "positionIn 7 [7, 8, 9] = 0"
    by (simp_all add: positionIn_def)
  from snapshot_index_roundtrip [of 500 "(1, 500000)" 1000 registry3 sid r' 9 5 sid r'] run
  have vs: "getSnapshotVerifiers sid r' = [7, 8, 9]" and i9: "getVerifierIndex sid 9 r' = Inr 2"
    by (simp_all add: registry3_eval srt pos)
  from snapshot_index_roundtrip [of 500 "(1, 500000)" 1000 registry3 sid r' 7 5 sid r'] run
  have i7: "getVerifierIndex sid 7 r' = Inr 0"
    by (simp add: registry3_eval srt pos)
  from snapshot_index_roundtrip [of 500 "(1, 500000)" 1000 registry3 sid r' 5 5 sid r'] run
  have i5: "getVerifierIndex sid 5 r' = Inl VerifierNotInSnapshot"
    by (simp add: registry3_eval)
  from vs i9 i7 i5 show ?thesis
    unfolding run by simp
qed

text \<open>
  Activation looks at the caller's own record only: it succeeds for every account that is
  inactive, allowlisted and staked, however many verifiers are active already.
\<close>

lemma activateVerifier_uncapped:
  assumes "\<not> active (r_verifiers r v)" and "allowlisted (r_verifiers r v)"
    and "minStake r \<le> stake (r_verifiers r v)"
  shows "\<not> isl (activateVerifier v r)"
    and "activeVerifiers (projr (activateVerifier v r)) = activeVerifiers r @ [v]"
  using assms by (simp_all add: activateVerifier_def Let_def)

text \<open>
  C7. The Registry puts no cap on activation, and with the accounts 1 to 257 active the snapshot
  holds 257 addresses. The account 257 stands at position 256 of the ascending sort, and
  \<open>getVerifierIndex\<close> returns 0 for it, which is the index of the account 1: the \<^verbatim>\<open>uint8\<close> result
  cannot hold the position.
\<close>

theorem verifier_index_wraps:
  "\<not> isl (createSnapshot 500 (1, 500000) 1000 crowdedRegistry)
   \<and> length (getSnapshotVerifiers (fst (projr (createSnapshot 500 (1, 500000) 1000 crowdedRegistry)))
               (snd (projr (createSnapshot 500 (1, 500000) 1000 crowdedRegistry)))) = 257
   \<and> 257 \<in> set (activeVerifiers crowdedRegistry)
   \<and> positionIn 257 (sort (activeVerifiers crowdedRegistry)) = 256
   \<and> getVerifierIndex (fst (projr (createSnapshot 500 (1, 500000) 1000 crowdedRegistry))) 257
        (snd (projr (createSnapshot 500 (1, 500000) 1000 crowdedRegistry))) = Inr 0
   \<and> positionIn 1 (sort (activeVerifiers crowdedRegistry)) = 0
   \<and> getVerifierIndex (fst (projr (createSnapshot 500 (1, 500000) 1000 crowdedRegistry))) 1
        (snd (projr (createSnapshot 500 (1, 500000) 1000 crowdedRegistry))) = Inr 0"
proof -
  have act: "activeVerifiers crowdedRegistry = [1..<258]"
    by (simp add: crowdedRegistry_def registry0_def)
  have "\<not> isl (createSnapshot 500 (1, 500000) 1000 crowdedRegistry)"
    by (simp add: createSnapshot_def crowdedRegistry_def registry0_def checked_def Let_def)
  then obtain sid r' where run: "createSnapshot 500 (1, 500000) 1000 crowdedRegistry = Inr (sid, r')"
    by (cases "createSnapshot 500 (1, 500000) 1000 crowdedRegistry") auto
  note vs = createSnapshot_verifiers [OF run]
  have len: "length (getSnapshotVerifiers sid r') = 257"
    by (simp add: vs act)
  have mem: "257 \<in> set (activeVerifiers crowdedRegistry)"
    and mem1: "1 \<in> set (activeVerifiers crowdedRegistry)"
    by (simp_all add: act)
  have "filter (\<lambda>u. u < 257) [1..<Suc 257] = [1..<257]"
    by (subst upt_Suc_append) (simp_all add: filter_id_conv)
  then have "length (filter (\<lambda>u. u < 257) [1..<258]) = 256"
    by simp
  then have pos: "positionIn 257 (sort (activeVerifiers crowdedRegistry)) = 256"
    using positionIn_sort [OF mem] by (simp add: act)
  have "filter (\<lambda>u. u < 1) [1..<258] = []"
    by (simp add: filter_empty_conv)
  then have pos1: "positionIn 1 (sort (activeVerifiers crowdedRegistry)) = 0"
    using positionIn_sort [OF mem1] by (simp add: act)
  have "getVerifierIndex sid 257 r' = Inr (positionIn 257 (getSnapshotVerifiers sid r') mod 256)"
    by (rule getVerifierIndex_present) (simp add: vs mem)
  then have last: "getVerifierIndex sid 257 r' = Inr 0"
    by (simp add: vs pos)
  have "getVerifierIndex sid 1 r' = Inr (positionIn 1 (getSnapshotVerifiers sid r') mod 256)"
    using mem1 by (intro getVerifierIndex_present) (simp add: vs)
  then have first: "getVerifierIndex sid 1 r' = Inr 0"
    using pos1 by (simp add: vs)
  from len mem pos last pos1 first show ?thesis
    unfolding run by simp
qed

section \<open>ProductionOracle: finalization\<close>

lemma Max_absorb:
  fixes m c :: nat
  assumes "finite A" and "m \<le> c"
  shows "Max (insert m (insert c A)) = Max (insert c A)"
proof -
  have "c \<le> Max (insert c A)"
    using assms(1) by (intro Max_ge) simp_all
  with assms(2) have "m \<le> Max (insert c A)"
    by simp
  moreover have "Max (insert m (insert c A)) = max m (Max (insert c A))"
    using assms(1) by (intro Max_insert) simp_all
  ultimately show ?thesis
    by (simp add: max_absorb2)
qed

lemma winnerLoop_result:
  assumes "winnerLoop i hs subs m win = (m', win')"
  shows "m' = Max (insert m ((\<lambda>h. count (subs h)) ` set (drop i hs)))
       \<and> ((win' = win \<and> m' = m) \<or> (\<exists>h \<in> set (drop i hs). win' = Some h \<and> count (subs h) = m'))"
  using assms
proof (induction i hs subs m win rule: winnerLoop.induct)
  case (1 i hs subs m win)
  show ?case
  proof (cases "i < length hs")
    case False
    with "1.prems" show ?thesis
      by (subst (asm) winnerLoop.simps) simp
  next
    case True
    then have d: "drop i hs = hs ! i # drop (i + 1) hs"
      by (simp add: Cons_nth_drop_Suc)
    let ?c = "count (subs (hs ! i))"
    let ?A = "(\<lambda>h. count (subs h)) ` set (drop (i + 1) hs)"
    have img: "(\<lambda>h. count (subs h)) ` set (drop i hs) = insert ?c ?A"
      by (simp add: d)
    show ?thesis
    proof (cases "?c > m")
      case bigger: True
      with True "1.prems" have "winnerLoop (i + 1) hs subs ?c (Some (hs ! i)) = (m', win')"
        by (subst (asm) winnerLoop.simps) (simp add: Let_def)
      from "1.IH"(1) [OF True refl bigger this]
      have m': "m' = Max (insert ?c ?A)"
        and w: "(win' = Some (hs ! i) \<and> m' = ?c)
              \<or> (\<exists>h \<in> set (drop (i + 1) hs). win' = Some h \<and> count (subs h) = m')"
        by blast+
      have "Max (insert m (insert ?c ?A)) = Max (insert ?c ?A)"
        using bigger by (intro Max_absorb) simp_all
      with m' have "m' = Max (insert m ((\<lambda>h. count (subs h)) ` set (drop i hs)))"
        by (simp only: img)
      moreover from w have "\<exists>h \<in> set (drop i hs). win' = Some h \<and> count (subs h) = m'"
        unfolding d by auto
      ultimately show ?thesis by blast
    next
      case smaller: False
      with True "1.prems" have "winnerLoop (i + 1) hs subs m win = (m', win')"
        by (subst (asm) winnerLoop.simps) (simp add: Let_def)
      from "1.IH"(2) [OF True refl smaller this]
      have m': "m' = Max (insert m ?A)"
        and w: "(win' = win \<and> m' = m)
              \<or> (\<exists>h \<in> set (drop (i + 1) hs). win' = Some h \<and> count (subs h) = m')"
        by blast+
      have "Max (insert ?c (insert m ?A)) = Max (insert m ?A)"
        using smaller by (intro Max_absorb) simp_all
      with m' have "m' = Max (insert m ((\<lambda>h. count (subs h)) ` set (drop i hs)))"
        by (simp only: img insert_commute [of m])
      moreover from w have "(win' = win \<and> m' = m)
          \<or> (\<exists>h \<in> set (drop i hs). win' = Some h \<and> count (subs h) = m')"
        unfolding d by auto
      ultimately show ?thesis by blast
    qed
  qed
qed

lemma ceiling_div:
  "(x + 9999) div 10000 = x div 10000 + (if x mod 10000 = 0 then 0 else 1)" for x :: nat
proof -
  define k r where "k = x div 10000" and "r = x mod 10000"
  have x: "x = 10000 * k + r" and r: "r < 10000"
    by (simp_all add: k_def r_def)
  have "(x + 9999) div 10000 = k + (if r = 0 then 0 else 1)"
  proof (rule div_nat_eqI)
    show "10000 * (k + (if r = 0 then 0 else 1)) \<le> x + 9999"
      using x r by (cases "r = 0") simp_all
    show "x + 9999 < 10000 * Suc (k + (if r = 0 then 0 else 1))"
      using x r by (cases "r = 0") simp_all
  qed
  then show ?thesis
    by (simp only: k_def r_def)
qed

lemma quorumRequired_ceiling:
  assumes "quorumRequired n bps = Inr q"
  shows "q = (n * bps + 9999) div 10000"
    and "q = n * bps div 10000 + (if n * bps mod 10000 = 0 then 0 else 1)"
proof -
  have "checked 256 (n * bps) = Inr (n * bps)"
    using assms by (cases "n * bps < 2 ^ 256") (simp_all add: quorumRequired_def checked_def)
  moreover have "checked 256 (n * bps + 9999) = Inr (n * bps + 9999)"
    using assms calculation
    by (cases "n * bps + 9999 < 2 ^ 256") (simp_all add: quorumRequired_def checked_def)
  ultimately show q: "q = (n * bps + 9999) div 10000"
    using assms by (simp add: quorumRequired_def)
  show "q = n * bps div 10000 + (if n * bps mod 10000 = 0 then 0 else 1)"
    unfolding q by (rule ceiling_div)
qed


lemma finalizeProduction_unfold:
  assumes "deadlinePassed pid hourId now w"
  shows "finalizeProduction pid hourId now w =
     (case requiredOf pid hourId w of
        Inl e \<Rightarrow> Inl e
      | Inr required \<Rightarrow>
          if maxCountOf pid hourId w < required then Inr (disputedWorld pid hourId w)
          else (case finalizeWithValue (getClaimKey pid hourId) pid hourId
                       (energyWh (winnerOf pid hourId w)) (vs_evidenceRoot (winnerOf pid hourId w))
                       (verifierBitmap (winnerOf pid hourId w)) w of
                  Inl e \<Rightarrow> Inl e
                | Inr w1 \<Rightarrow>
                    if (allSubmittersBitmap (bucketOf pid hourId w1)
                          XOR verifierBitmap (winnerOf pid hourId w))
                         AND allSubmittersBitmap (bucketOf pid hourId w1) \<noteq> 0
                    then recordFaults (oracleAddress (productionOracle w))
                           ((allSubmittersBitmap (bucketOf pid hourId w1)
                               XOR verifierBitmap (winnerOf pid hourId w))
                              AND allSubmittersBitmap (bucketOf pid hourId w1))
                           (snapshotId (bucketOf pid hourId w1)) WrongValue w1
                    else Inr w1))"
proof (cases "requiredOf pid hourId w")
  case (Inl e)
  with assms show ?thesis
    by (simp add: finalizeProduction_def deadlinePassed_def bucketOf_def requiredOf_def Let_def)
next
  case (Inr required)
  show ?thesis
  proof (cases "maxCountOf pid hourId w < required")
    case True
    with assms Inr show ?thesis
      by (simp add: finalizeProduction_def deadlinePassed_def bucketOf_def requiredOf_def
            maxCountOf_def tallyOf_def disputedWorld_def Let_def case_prod_unfold)
  next
    case False
    with assms Inr show ?thesis
      unfolding tallyOf_def winnerOf_def maxCountOf_def bucketOf_def
      by (simp add: finalizeProduction_def deadlinePassed_def requiredOf_def bucketOf_def
            Let_def case_prod_unfold
          split: sum.splits)
  qed
qed

lemma finalizeProduction_refused:
  "finalized (bucketOf pid hourId w) \<Longrightarrow>
     finalizeProduction pid hourId now w = Inl ClaimAlreadyFinalized"
  "\<not> finalized (bucketOf pid hourId w)
     \<and> (deadline (bucketOf pid hourId w) = 0 \<or> now \<le> deadline (bucketOf pid hourId w)) \<Longrightarrow>
     finalizeProduction pid hourId now w = Inl ClaimDeadlineNotReached"
  by (simp_all add: finalizeProduction_def bucketOf_def Let_def)


lemma distributeRewards_frame:
  assumes "distributeRewards sender bm sid wh w = Inr w'"
  shows "registry w' = registry w \<and> productionOracle w' = productionOracle w
       \<and> hourlyCredits w' = hourlyCredits w"
proof (cases "popcount bm = 0 \<or> wh = 0 \<or> rewardPerWhWei (treasury w) = 0")
  case True
  have "authorizedOracle sender (treasury w)"
    using assms by (cases "authorizedOracle sender (treasury w)")
      (simp_all add: distributeRewards_def Let_def)
  with True assms have "w' = noted (RewardsDistributed bm sid 0) w"
    by (simp add: distributeRewards_zero)
  then show ?thesis
    by (simp add: noted_def)
next
  case False
  then have "popcount bm \<noteq> 0" and "wh * rewardPerWhWei (treasury w) \<noteq> 0"
    by simp_all
  with assms obtain pending distributed where "w' = rewarded bm sid pending distributed w"
    by (elim distributeRewards_paid)
  then show ?thesis
    by simp
qed

lemma countFault_frame:
  assumes "countFault v ft w = Inr w'"
  shows "productionOracle w' = productionOracle w \<and> hourlyCredits w' = hourlyCredits w
       \<and> snapshots (registry w') = snapshots (registry w)
       \<and> nextSnapshotId (registry w') = nextSnapshotId (registry w)"
  using assms by (cases rule: countFault_cases) simp_all

lemma recordFaultsLoop_frame:
  assumes "recordFaultsLoop i vs bm ft w = Inr w'"
  shows "productionOracle w' = productionOracle w \<and> hourlyCredits w' = hourlyCredits w
       \<and> snapshots (registry w') = snapshots (registry w)
       \<and> nextSnapshotId (registry w') = nextSnapshotId (registry w)"
  using assms
proof (induction i vs bm ft w rule: recordFaultsLoop.induct)
  case (1 i vs bm ft w)
  show ?case
  proof (cases "i < length vs \<and> i < 16")
    case False
    with "1.prems" show ?thesis
      by (subst (asm) recordFaultsLoop.simps) auto
  next
    case inrange: True
    show ?thesis
    proof (cases "bm AND push_bit i 1 \<noteq> 0")
      case False
      with inrange "1.prems" have "recordFaultsLoop (i + 1) vs bm ft w = Inr w'"
        by (subst (asm) recordFaultsLoop.simps) simp
      with "1.IH"(2) inrange False show ?thesis by simp
    next
      case True
      with inrange "1.prems" obtain w1 where c: "countFault (vs ! i) ft w = Inr w1"
        and l: "recordFaultsLoop (i + 1) vs bm ft w1 = Inr w'"
        by (subst (asm) recordFaultsLoop.simps) (simp split: sum.splits)
      from "1.IH"(1) [OF inrange True c l] countFault_frame [OF c] show ?thesis by simp
    qed
  qed
qed

lemma recordFaults_frame:
  assumes "recordFaults sender bm sid ft w = Inr w'"
  shows "productionOracle w' = productionOracle w \<and> hourlyCredits w' = hourlyCredits w
       \<and> snapshots (registry w') = snapshots (registry w)
       \<and> nextSnapshotId (registry w') = nextSnapshotId (registry w)"
proof (cases "bm = 0")
  case True
  with assms show ?thesis
    by (simp add: recordFaults_def split: if_splits)
next
  case False
  with assms have "recordFaultsLoop 0 (getSnapshotVerifiers sid (registry w)) bm ft w = Inr w'"
    by (simp add: recordFaults_def split: if_splits)
  then show ?thesis
    by (rule recordFaultsLoop_frame)
qed

lemma finalizeWithValue_Inr:
  assumes "finalizeWithValue ck pid hourId wh root bm w = Inr w'"
  shows "claimBuckets (productionOracle w')
           = (claimBuckets (productionOracle w))
               (ck := finalizedBucket (claimBuckets (productionOracle w) ck) wh root bm)"
    and "valueSubmissions (productionOracle w') = valueSubmissions (productionOracle w)"
    and "claimValueHashes (productionOracle w') = claimValueHashes (productionOracle w)"
    and "quorumBps (productionOracle w') = quorumBps (productionOracle w)"
    and "oracleAddress (productionOracle w') = oracleAddress (productionOracle w)"
    and "registry w' = registry w"
proof -
  let ?o = "productionOracle w"
  let ?w1 = "w\<lparr>productionOracle := ?o\<lparr>claimBuckets := (claimBuckets ?o)
      (ck := finalizedBucket (claimBuckets ?o ck) wh root bm)\<rparr>\<rparr>"
  from assms obtain producer where "getProducer pid (registry w) = Inr producer"
    by (cases "getProducer pid (registry w)") (simp_all add: finalizeWithValue_def Let_def)
  moreover from assms calculation obtain h where
    "mint (oracleAddress ?o) (payoutAddr producer) hourId wh ck (hourlyCredits w) = Inr h"
    by (cases "mint (oracleAddress ?o) (payoutAddr producer) hourId wh ck (hourlyCredits w)")
       (simp_all add: finalizeWithValue_def Let_def)
  moreover from assms calculation obtain w2 where
    d: "distributeRewards (oracleAddress ?o) bm (snapshotId (claimBuckets ?o ck)) wh
          (?w1\<lparr>hourlyCredits := h\<rparr>) = Inr w2"
    and w': "w' = w2\<lparr>productionOracle := (productionOracle w2)
               \<lparr>o_events := o_events (productionOracle w2)
                  @ [ProductionFinalized ck pid hourId wh root]\<rparr>\<rparr>"
    by (cases "distributeRewards (oracleAddress ?o) bm (snapshotId (claimBuckets ?o ck)) wh
          (?w1\<lparr>hourlyCredits := h\<rparr>)")
       (simp_all add: finalizeWithValue_def Let_def finalizedBucket_def)
  note f = distributeRewards_frame [OF d]
  show "claimBuckets (productionOracle w')
           = (claimBuckets (productionOracle w))
               (ck := finalizedBucket (claimBuckets (productionOracle w) ck) wh root bm)"
    and "valueSubmissions (productionOracle w') = valueSubmissions (productionOracle w)"
    and "claimValueHashes (productionOracle w') = claimValueHashes (productionOracle w)"
    and "quorumBps (productionOracle w') = quorumBps (productionOracle w)"
    and "oracleAddress (productionOracle w') = oracleAddress (productionOracle w)"
    and "registry w' = registry w"
    using f by (simp_all add: w')
qed


lemma finalizeProduction_quorum:
  assumes "deadlinePassed pid hourId now w" and "requiredOf pid hourId w = Inr q"
    and "q \<le> maxCountOf pid hourId w" and "finalizeProduction pid hourId now w = Inr w'"
  shows "bucketOf pid hourId w'
           = finalizedBucket (bucketOf pid hourId w) (energyWh (winnerOf pid hourId w))
               (vs_evidenceRoot (winnerOf pid hourId w)) (verifierBitmap (winnerOf pid hourId w))"
proof -
  let ?ck = "getClaimKey pid hourId"
  let ?win = "winnerOf pid hourId w"
  from assms obtain w1 where
    f: "finalizeWithValue ?ck pid hourId (energyWh ?win) (vs_evidenceRoot ?win)
          (verifierBitmap ?win) w = Inr w1"
    by (cases "finalizeWithValue ?ck pid hourId (energyWh ?win) (vs_evidenceRoot ?win)
          (verifierBitmap ?win) w") (simp_all add: finalizeProduction_unfold)
  let ?losers = "(allSubmittersBitmap (bucketOf pid hourId w1) XOR verifierBitmap ?win)
                   AND allSubmittersBitmap (bucketOf pid hourId w1)"
  have "productionOracle w' = productionOracle w1"
  proof (cases "?losers = 0")
    case True
    with assms f show ?thesis
      by (simp add: finalizeProduction_unfold)
  next
    case False
    with assms f have "recordFaults (oracleAddress (productionOracle w)) ?losers
        (snapshotId (bucketOf pid hourId w1)) WrongValue w1 = Inr w'"
      by (simp add: finalizeProduction_unfold)
    then show ?thesis
      using recordFaults_frame by blast
  qed
  then show ?thesis
    using finalizeWithValue_Inr(1) [OF f] by (simp add: bucketOf_def)
qed

lemma winnerOf_count:
  "count (winnerOf pid hourId w) = maxCountOf pid hourId w"
proof -
  let ?hs = "claimValueHashes (productionOracle w) (getClaimKey pid hourId)"
  obtain m win where l: "winnerLoop 0 ?hs (tallyOf pid hourId w) 0 None = (m, win)"
    by (cases "winnerLoop 0 ?hs (tallyOf pid hourId w) 0 None")
  from winnerLoop_result [OF l]
  have "(win = None \<and> m = 0) \<or> (\<exists>h. win = Some h \<and> count (tallyOf pid hourId w h) = m)"
    by auto
  then show ?thesis
    by (auto simp: winnerOf_def maxCountOf_def l zeroSubmission_def)
qed


lemma finalizedBucket_simps [simp]:
  "finalized (finalizedBucket b wh root bm)"
  "\<not> disputed (finalizedBucket b wh root bm)"
  "verifiedEnergyWh (finalizedBucket b wh root bm) = wh"
  "evidenceRoot (finalizedBucket b wh root bm) = root"
  "winningVerifierBitmap (finalizedBucket b wh root bm) = bm"
  "maxSubmittedEnergyWh (finalizedBucket b wh root bm) = maxSubmittedEnergyWh b"
  "allSubmittersBitmap (finalizedBucket b wh root bm) = allSubmittersBitmap b"
  "submissionCount (finalizedBucket b wh root bm) = submissionCount b"
  "snapshotId (finalizedBucket b wh root bm) = snapshotId b"
  "deadline (finalizedBucket b wh root bm) = deadline b"
  by (simp_all add: finalizedBucket_def)

lemma finalizeProduction_pool:
  assumes "deadlinePassed pid hourId now w" and "requiredOf pid hourId w = Inr q"
    and "q \<le> maxCountOf pid hourId w"
    and "getProducer pid (registry w) = Inr producer"
    and "mint (oracleAddress (productionOracle w)) (payoutAddr producer) hourId
           (energyWh (winnerOf pid hourId w)) (getClaimKey pid hourId) (hourlyCredits w) = Inr h"
    and "authorizedOracle (oracleAddress (productionOracle w)) (treasury w)"
    and "popcount (verifierBitmap (winnerOf pid hourId w)) \<noteq> 0"
    and "energyWh (winnerOf pid hourId w) * rewardPerWhWei (treasury w) \<noteq> 0"
    and "energyWh (winnerOf pid hourId w) * rewardPerWhWei (treasury w) < 2 ^ 256"
    and "rewardPool (treasury w) < energyWh (winnerOf pid hourId w) * rewardPerWhWei (treasury w)"
  shows "finalizeProduction pid hourId now w = Inl InsufficientRewardPool"
proof -
  let ?ck = "getClaimKey pid hourId"
  let ?win = "winnerOf pid hourId w"
  let ?o = "productionOracle w"
  let ?w1 = "w\<lparr>productionOracle := ?o\<lparr>claimBuckets := (claimBuckets ?o)
        (?ck := (claimBuckets ?o ?ck)
          \<lparr> finalized := True, disputed := False, verifiedEnergyWh := energyWh ?win,
            winningValueHash := Some (energyWh ?win, vs_evidenceRoot ?win),
            evidenceRoot := vs_evidenceRoot ?win,
            winningVerifierBitmap := verifierBitmap ?win \<rparr>)\<rparr>, hourlyCredits := h\<rparr>"
  have "distributeRewards (oracleAddress ?o) (verifierBitmap ?win)
          (snapshotId (claimBuckets ?o ?ck)) (energyWh ?win) ?w1 = Inl InsufficientRewardPool"
    using assms(6-10) by (intro distributeRewards_insufficient) simp_all
  with assms(4,5) have "finalizeWithValue ?ck pid hourId (energyWh ?win) (vs_evidenceRoot ?win)
      (verifierBitmap ?win) w = Inl InsufficientRewardPool"
    by (simp add: finalizeWithValue_def Let_def)
  with assms(1-3) show ?thesis
    by (simp add: finalizeProduction_unfold)
qed


lemmas scenario_defs = claimWorld_def registered_def registry2_def activateVerifier_def
  deployment_defs

lemmas submit_eval = submitProduction_def getClaimKey_def isProducerRegistered_def getProducer_def
  validateSignature_def getVerifier_def firstSubmission_def createSnapshot_def checked_def
  sortAddresses_sort getVerifierIndex_def verifierIndexLoop.simps acceptSubmission_def Let_def
  recordFault_def authorizedOracle_def countFault_def

lemmas finalize_eval = finalizeProduction_def quorumRequired_def getSnapshotCount_def
  winnerLoop.simps finalizeWithValue_def mint_def distributeRewards_def popcount_values
  distributeLoop.simps checked_sub_def getSnapshotVerifiers_def recordFaults_def
  recordFaultsLoop.simps forceFinalize_def

lemmas claim_views = deadlinePassed_def requiredOf_def maxCountOf_def winnerOf_def tallyOf_def
  bucketOf_def



section \<open>ProductionOracle: calls that return\<close>

lemma finalizeProduction_Inr:
  assumes "finalizeProduction pid hourId now w = Inr w'"
  obtains q where "deadlinePassed pid hourId now w" and "requiredOf pid hourId w = Inr q"
proof -
  have d: "deadlinePassed pid hourId now w"
  proof (rule ccontr)
    assume "\<not> deadlinePassed pid hourId now w"
    then have "finalized (bucketOf pid hourId w)
        \<or> (\<not> finalized (bucketOf pid hourId w)
            \<and> (deadline (bucketOf pid hourId w) = 0 \<or> now \<le> deadline (bucketOf pid hourId w)))"
      by (auto simp: deadlinePassed_def)
    with assms show False
      using finalizeProduction_refused [of pid hourId w now] by auto
  qed
  with assms obtain q where "requiredOf pid hourId w = Inr q"
    by (cases "requiredOf pid hourId w") (simp_all add: finalizeProduction_unfold)
  with d show thesis
    by (rule that)
qed

lemma same_bucket:
  "disputed b \<Longrightarrow> \<not> finalized b \<Longrightarrow> b\<lparr>disputed := True, finalized := False\<rparr> = b"
  by (cases b) simp

lemma disputedWorld_views:
  "bucketOf pid hourId (disputedWorld pid hourId w)
     = (bucketOf pid hourId w)\<lparr>disputed := True, finalized := False\<rparr>"
  "requiredOf pid hourId (disputedWorld pid hourId w) = requiredOf pid hourId w"
  "maxCountOf pid hourId (disputedWorld pid hourId w) = maxCountOf pid hourId w"
  by (simp_all add: bucketOf_def disputedWorld_def requiredOf_def maxCountOf_def tallyOf_def)

section \<open>ProductionOracle: rejected submissions\<close>

text \<open>
  C4. A late and a duplicate submission, on the state after the first submission of verifier 7
  (deadline 4600): both calls fail, so the state after them is the state before them. The
  fault that each call records through the Treasury before it reverts (the counter of the
  signer would go from 0 to 1) is undone with everything else.
\<close>

theorem rejected_submission_faults:
  "submitProduction 42 500000 5000 43690 9 4601 oneSubmission = Inl ClaimDeadlinePassed
   \<and> transact (submitProduction 42 500000 5000 43690 9 4601) oneSubmission
       = (Some ClaimDeadlinePassed, oneSubmission)
   \<and> verifierFaults (treasury oneSubmission) 9 = 0
   \<and> verifierFaults (treasury (projr (recordFault 500 9 LateSubmission oneSubmission))) 9 = 1
   \<and> verifierFaults (treasury
        (snd (transact (submitProduction 42 500000 5000 43690 9 4601) oneSubmission))) 9 = 0
   \<and> submitProduction 42 500000 5000 43690 7 2000 oneSubmission = Inl DuplicateSubmission
   \<and> transact (submitProduction 42 500000 5000 43690 7 2000) oneSubmission
       = (Some DuplicateSubmission, oneSubmission)
   \<and> verifierFaults (treasury oneSubmission) 7 = 0
   \<and> verifierFaults (treasury
        (projr (recordFault 500 7 DuplicateSubmissionFault oneSubmission))) 7 = 1
   \<and> verifierFaults (treasury
        (snd (transact (submitProduction 42 500000 5000 43690 7 2000) oneSubmission))) 7 = 0"
proof -
  have late: "submitProduction 42 500000 5000 43690 9 4601 oneSubmission = Inl ClaimDeadlinePassed"
    and dup: "submitProduction 42 500000 5000 43690 7 2000 oneSubmission = Inl DuplicateSubmission"
    by (simp_all add: oneSubmission_def scenario_defs submit_eval)
  have t: "treasury oneSubmission = treasury0"
    by (simp add: oneSubmission_def scenario_defs submit_eval)
  have "verifierFaults (treasury (projr (recordFault 500 9 LateSubmission oneSubmission))) 9 = 1"
    and "verifierFaults (treasury
           (projr (recordFault 500 7 DuplicateSubmissionFault oneSubmission))) 7 = 1"
    by (simp_all add: recordFault_def authorizedOracle_def countFault_def checked_def Let_def t
          treasury0_def)
  then show ?thesis
    by (simp add: late dup transact_def t treasury0_def)
qed

section \<open>ProductionOracle: the submitter bitmap\<close>

text \<open>
  C3. With seventeen active verifiers the snapshot has seventeen entries, and the verifier at
  snapshot index 16 has no bit in a 16-bit bitmap: its accepted submission counts in
  \<open>submissionCount\<close> and sets no bit of \<open>allSubmittersBitmap\<close>.
\<close>

theorem seventeenth_submitter:
  "\<not> isl (submitProduction 42 500000 5000 43690 17 1000 seventeenWorld)
   \<and> length (activeVerifiers (registry seventeenWorld)) = 17
   \<and> getSnapshotCount
        (snapshotId (bucketOf 42 500000
           (projr (submitProduction 42 500000 5000 43690 17 1000 seventeenWorld))))
        (registry (projr (submitProduction 42 500000 5000 43690 17 1000 seventeenWorld))) = 17
   \<and> getVerifierIndex 1 17
        (registry (projr (submitProduction 42 500000 5000 43690 17 1000 seventeenWorld))) = Inr 16
   \<and> submissionCount (bucketOf 42 500000
        (projr (submitProduction 42 500000 5000 43690 17 1000 seventeenWorld))) = 1
   \<and> allSubmittersBitmap (bucketOf 42 500000
        (projr (submitProduction 42 500000 5000 43690 17 1000 seventeenWorld))) = 0
   \<and> popcount (allSubmittersBitmap (bucketOf 42 500000
        (projr (submitProduction 42 500000 5000 43690 17 1000 seventeenWorld)))) = 0"
proof -
  have wrap: "(65536 :: 16 word) = 0"
    by simp
  show ?thesis
    by (simp add: seventeenWorld_def registered_def deployment_defs submit_eval bucketOf_def
          getSnapshotCount_def popcount_values wrap)
qed

section \<open>ProductionOracle: what a finalized bucket holds\<close>

lemma firstSubmission_Inr:
  assumes "firstSubmission ck now w = Inr w1"
  shows "valueSubmissions (productionOracle w1) = valueSubmissions (productionOracle w)"
    and "maxSubmittedEnergyWh (claimBuckets (productionOracle w1) k)
           = maxSubmittedEnergyWh (claimBuckets (productionOracle w) k)"
    and "verifiedEnergyWh (claimBuckets (productionOracle w1) k)
           = verifiedEnergyWh (claimBuckets (productionOracle w) k)"
    and "finalized (claimBuckets (productionOracle w1) k)
           = finalized (claimBuckets (productionOracle w) k)"
    and "baselineMode (productionOracle w1) = baselineMode (productionOracle w)"
    and "singleVerifierOverride (productionOracle w1) = singleVerifierOverride (productionOracle w)"
  using assms
  by (auto simp: firstSubmission_def Let_def split: if_splits sum.splits prod.splits)

lemma acceptSubmission_eq:
  "acceptSubmission ck pid hourId wh root verifier idx w =
     (if count (valueSubmissions (productionOracle w) ck (wh, root)) + 1 < 2 ^ 32
         \<and> submissionCount (claimBuckets (productionOracle w) ck) + 1 < 2 ^ 32
      then if baselineMode (productionOracle w) \<and> singleVerifierOverride (productionOracle w) \<noteq> 0
              \<and> verifier = singleVerifierOverride (productionOracle w)
           then finalizeWithValue ck pid hourId wh root
                  (verifierBitmap (valueSubmissions (productionOracle w) ck (wh, root))
                     OR push_bit idx 1)
                  (accepted ck wh root verifier idx w)
           else Inr (accepted ck wh root verifier idx w)
      else Inl Panic)"
proof (cases "count (valueSubmissions (productionOracle w) ck (wh, root)) + 1 < 2 ^ 32")
  case False
  then show ?thesis
    unfolding acceptSubmission_def Let_def checked_def by (simp split: if_splits)
next
  case c: True
  show ?thesis
  proof (cases "submissionCount (claimBuckets (productionOracle w) ck) + 1 < 2 ^ 32")
    case False
    with c show ?thesis
      unfolding acceptSubmission_def Let_def checked_def by (simp split: if_splits)
  next
    case True
    show ?thesis
    proof (cases "count (valueSubmissions (productionOracle w) ck (wh, root)) = 0")
      case True
      with c \<open>submissionCount (claimBuckets (productionOracle w) ck) + 1 < 2 ^ 32\<close>
      show ?thesis
        unfolding acceptSubmission_def accepted_def Let_def checked_def by simp
    next
      case False
      with c \<open>submissionCount (claimBuckets (productionOracle w) ck) + 1 < 2 ^ 32\<close>
      show ?thesis
        unfolding acceptSubmission_def accepted_def Let_def checked_def by simp
    qed
  qed
qed

lemma accepted_views:
  "valueSubmissions (productionOracle (accepted ck wh root v idx w)) k h
     = (if k = ck \<and> h = (wh, root)
        then (if count (valueSubmissions (productionOracle w) ck (wh, root)) = 0
              then (valueSubmissions (productionOracle w) ck (wh, root))
                     \<lparr>energyWh := wh, vs_evidenceRoot := root\<rparr>
              else valueSubmissions (productionOracle w) ck (wh, root))
               \<lparr> count := count (valueSubmissions (productionOracle w) ck (wh, root)) + 1,
                 verifierBitmap :=
                   verifierBitmap (valueSubmissions (productionOracle w) ck (wh, root))
                     OR push_bit idx 1 \<rparr>
        else valueSubmissions (productionOracle w) k h)"
  "claimBuckets (productionOracle (accepted ck wh root v idx w)) k
     = (if k = ck
        then (claimBuckets (productionOracle w) ck)
               \<lparr> allSubmittersBitmap :=
                   allSubmittersBitmap (claimBuckets (productionOracle w) ck) OR push_bit idx 1,
                 maxSubmittedEnergyWh :=
                   max wh (maxSubmittedEnergyWh (claimBuckets (productionOracle w) ck)),
                 submissionCount := submissionCount (claimBuckets (productionOracle w) ck) + 1 \<rparr>
        else claimBuckets (productionOracle w) k)"
  by (simp_all add: accepted_def Let_def max_def)


lemma submitProduction_Inr:
  assumes "submitProduction pid hourId wh root recovered now w = Inr w'"
  obtains w1 idx where "\<not> finalized (bucketOf pid hourId w)"
    and "firstSubmission (getClaimKey pid hourId) now w = Inr w1"
    and "getVerifierIndex (snapshotId (bucketOf pid hourId w1)) recovered (registry w1) = Inr idx"
    and "\<not> hasSubmitted (productionOracle w1) (getClaimKey pid hourId) recovered"
    and "acceptSubmission (getClaimKey pid hourId) pid hourId wh root recovered idx w1 = Inr w'"
  using assms unfolding submitProduction_def validateSignature_def Let_def bucketOf_def
  by (auto split: if_splits sum.splits)

lemma finalizeProduction_cases:
  assumes "finalizeProduction pid hourId now w = Inr w'"
  obtains (dispute) "w' = disputedWorld pid hourId w"
  | (final) w1 where
      "finalizeWithValue (getClaimKey pid hourId) pid hourId (energyWh (winnerOf pid hourId w))
         (vs_evidenceRoot (winnerOf pid hourId w)) (verifierBitmap (winnerOf pid hourId w)) w
         = Inr w1"
      and "productionOracle w' = productionOracle w1"
proof -
  from assms obtain q where d: "deadlinePassed pid hourId now w"
    and q: "requiredOf pid hourId w = Inr q"
    by (rule finalizeProduction_Inr)
  let ?win = "winnerOf pid hourId w"
  show thesis
  proof (cases "maxCountOf pid hourId w < q")
    case True
    with assms d q have "w' = disputedWorld pid hourId w"
      by (simp add: finalizeProduction_unfold)
    then show thesis
      by (rule dispute)
  next
    case False
    with assms d q obtain w1 where
      f: "finalizeWithValue (getClaimKey pid hourId) pid hourId (energyWh ?win)
            (vs_evidenceRoot ?win) (verifierBitmap ?win) w = Inr w1"
      by (cases "finalizeWithValue (getClaimKey pid hourId) pid hourId (energyWh ?win)
            (vs_evidenceRoot ?win) (verifierBitmap ?win) w")
         (simp_all add: finalizeProduction_unfold)
    let ?losers = "(allSubmittersBitmap (bucketOf pid hourId w1) XOR verifierBitmap ?win)
                     AND allSubmittersBitmap (bucketOf pid hourId w1)"
    have "productionOracle w' = productionOracle w1"
    proof (cases "?losers = 0")
      case True
      with assms d q f False show ?thesis
        by (simp add: finalizeProduction_unfold)
    next
      case losers: False
      with assms d q f False have "recordFaults (oracleAddress (productionOracle w)) ?losers
          (snapshotId (bucketOf pid hourId w1)) WrongValue w1 = Inr w'"
        by (simp add: finalizeProduction_unfold)
      then show ?thesis
        using recordFaults_frame by blast
    qed
    with f show thesis
      by (rule final)
  qed
qed

lemma forceFinalize_Inr:
  assumes "forceFinalize sender pid hourId wh root now w = Inr w'"
  shows "claimBuckets (productionOracle w')
           = (claimBuckets (productionOracle w))
               (getClaimKey pid hourId := (bucketOf pid hourId w)
                  \<lparr> finalized := True, disputed := False, verifiedEnergyWh := wh,
                    evidenceRoot := root, winningVerifierBitmap := 0 \<rparr>)"
    and "valueSubmissions (productionOracle w') = valueSubmissions (productionOracle w)"
    and "wh \<le> maxSubmittedEnergyWh (bucketOf pid hourId w)"
    and "disputed (bucketOf pid hourId w)"
    and "sender = oracleOwner (productionOracle w)"
  using assms unfolding forceFinalize_def Let_def bucketOf_def
  by (auto split: if_splits sum.splits)

lemma winnerOf_tally:
  "winnerOf pid hourId w = zeroSubmission \<or> (\<exists>h. winnerOf pid hourId w = tallyOf pid hourId w h)"
  unfolding winnerOf_def by (auto split: option.splits)

lemma finalizeWithValue_bounded:
  assumes "finalizeWithValue ck pid hourId wh root bm w = Inr w'"
    and "talliesBounded w" and "verifiedBounded w"
    and "wh \<le> maxSubmittedEnergyWh (claimBuckets (productionOracle w) ck)"
  shows "talliesBounded w' \<and> verifiedBounded w'"
  using assms(2-4) finalizeWithValue_Inr(1,2) [OF assms(1)]
  unfolding talliesBounded_def verifiedBounded_def
  by (simp del: split_paired_All)

lemma accepted_bounded:
  assumes "talliesBounded w" and "verifiedBounded w"
  shows "talliesBounded (accepted ck wh root v idx w)"
    and "verifiedBounded (accepted ck wh root v idx w)"
    and "wh \<le> maxSubmittedEnergyWh (claimBuckets (productionOracle (accepted ck wh root v idx w)) ck)"
proof -
  show "talliesBounded (accepted ck wh root v idx w)"
    unfolding talliesBounded_def
  proof (intro allI)
    fix k h
    have "energyWh (valueSubmissions (productionOracle w) k h)
            \<le> maxSubmittedEnergyWh (claimBuckets (productionOracle w) k)"
      using assms(1) unfolding talliesBounded_def by blast
    then show "energyWh (valueSubmissions (productionOracle (accepted ck wh root v idx w)) k h)
            \<le> maxSubmittedEnergyWh (claimBuckets (productionOracle (accepted ck wh root v idx w)) k)"
      by (auto simp: accepted_views)
  qed
  show "verifiedBounded (accepted ck wh root v idx w)"
    using assms(2) unfolding verifiedBounded_def
    by (auto simp: accepted_views max_def simp del: split_paired_All)
  show "wh \<le> maxSubmittedEnergyWh (claimBuckets (productionOracle (accepted ck wh root v idx w)) ck)"
    by (simp add: accepted_views)
qed

lemma submitProduction_bounded:
  assumes "submitProduction pid hourId wh root recovered now w = Inr w'"
    and "talliesBounded w" and "verifiedBounded w"
  shows "talliesBounded w' \<and> verifiedBounded w'"
proof -
  let ?ck = "getClaimKey pid hourId"
  from assms(1) obtain w1 idx where f: "firstSubmission ?ck now w = Inr w1"
    and a: "acceptSubmission ?ck pid hourId wh root recovered idx w1 = Inr w'"
    by (rule submitProduction_Inr)
  have t1: "talliesBounded w1" and v1: "verifiedBounded w1"
    using assms(2,3) firstSubmission_Inr(1-4) [OF f]
    unfolding talliesBounded_def verifiedBounded_def
    by (simp_all del: split_paired_All)
  have b: "talliesBounded (accepted ?ck wh root recovered idx w1)"
    "verifiedBounded (accepted ?ck wh root recovered idx w1)"
    "wh \<le> maxSubmittedEnergyWh
       (claimBuckets (productionOracle (accepted ?ck wh root recovered idx w1)) ?ck)"
    by (rule accepted_bounded [OF t1 v1])+
  show ?thesis
  proof (cases "baselineMode (productionOracle w1) \<and> singleVerifierOverride (productionOracle w1) \<noteq> 0
              \<and> recovered = singleVerifierOverride (productionOracle w1)")
    case False
    with a have "w' = accepted ?ck wh root recovered idx w1"
      by (simp add: acceptSubmission_eq split: if_splits)
    with b show ?thesis
      by simp
  next
    case True
    with a have "finalizeWithValue ?ck pid hourId wh root
        (verifierBitmap (valueSubmissions (productionOracle w1) ?ck (wh, root)) OR push_bit idx 1)
        (accepted ?ck wh root recovered idx w1) = Inr w'"
      by (simp add: acceptSubmission_eq split: if_splits)
    then show ?thesis
      using b by (rule finalizeWithValue_bounded)
  qed
qed

lemma finalizeProduction_bounded:
  assumes "finalizeProduction pid hourId now w = Inr w'"
    and "talliesBounded w" and "verifiedBounded w"
  shows "talliesBounded w' \<and> verifiedBounded w'"
  using assms(1)
proof (cases rule: finalizeProduction_cases)
  case dispute
  with assms(2,3) show ?thesis
    unfolding talliesBounded_def verifiedBounded_def
    by (simp add: disputedWorld_def bucketOf_def del: split_paired_All)
next
  case (final w1)
  have "energyWh (winnerOf pid hourId w)
          \<le> maxSubmittedEnergyWh (claimBuckets (productionOracle w) (getClaimKey pid hourId))"
    using winnerOf_tally [of pid hourId w] assms(2)
    unfolding talliesBounded_def tallyOf_def
    by (auto simp: zeroSubmission_def simp del: split_paired_All)
  with final(1) assms(2,3) have "talliesBounded w1 \<and> verifiedBounded w1"
    by (rule finalizeWithValue_bounded)
  with final(2) show ?thesis
    unfolding talliesBounded_def verifiedBounded_def by simp
qed

lemma forceFinalize_bounded:
  assumes "forceFinalize sender pid hourId wh root now w = Inr w'"
    and "talliesBounded w" and "verifiedBounded w"
  shows "talliesBounded w' \<and> verifiedBounded w'"
  using assms(2,3) forceFinalize_Inr(1-3) [OF assms(1)]
  unfolding talliesBounded_def verifiedBounded_def bucketOf_def
  by (simp del: split_paired_All)

lemma reachable_bounded:
  "reachable w \<Longrightarrow> talliesBounded w \<and> verifiedBounded w"
proof (induction rule: reachable.induct)
  case (fresh w)
  then show ?case
    unfolding talliesBounded_def verifiedBounded_def
    by (simp add: noBucket_def zeroSubmission_def)
next
  case (submit w pid hourId wh root recovered now w')
  then show ?case
    using submitProduction_bounded by blast
next
  case (finalize w pid hourId now w')
  then show ?case
    using finalizeProduction_bounded by blast
next
  case (force w sender pid hourId wh root now w')
  then show ?case
    using forceFinalize_bounded by blast
next
  case (other w w')
  then show ?case
    unfolding talliesBounded_def verifiedBounded_def by simp
qed


subsection \<open>Counters and bitmaps\<close>

lemma popcount_card: "popcount bm = card {j. bit bm j}"
proof -
  have "{j. bit bm j} \<inter> set [0..<16] = {j. bit bm j}"
    using bit16 [of bm] by auto
  then show ?thesis
    by (simp add: popcount_eq setBits_def distinct_length_filter)
qed

lemma bit_or_mask:
  "bit ((bm :: 16 word) OR push_bit i 1) j \<longleftrightarrow> bit bm j \<or> (j = i \<and> i < 16)"
  "bit (bm OR 2 ^ i) j \<longleftrightarrow> bit bm j \<or> (j = i \<and> i < 16)"
  by (auto simp: bit_or_iff bit_exp_iff)

lemma popcount_set_bit:
  assumes "i < 16" and "\<not> bit bm i"
  shows "popcount (bm OR push_bit i 1) = popcount bm + 1"
proof -
  have "{j. bit bm j} \<subseteq> {..<16}"
    using bit16 [of bm] by auto
  then have fin: "finite {j. bit bm j}"
    by (rule finite_subset) simp
  have "{j. bit (bm OR push_bit i 1) j} = insert i {j. bit bm j}"
    using assms(1) by (auto simp: bit_or_mask)
  with fin assms(2) show ?thesis
    by (simp add: popcount_card)
qed

lemma popcount_le:
  assumes "\<forall>i. bit bm i \<longrightarrow> i < n"
  shows "popcount bm \<le> n"
proof -
  have "{j. bit bm j} \<subseteq> {..<n}"
    using assms by auto
  then have "card {j. bit bm j} \<le> card {..<n}"
    by (intro card_mono) simp_all
  then show ?thesis
    by (simp add: popcount_card)
qed

lemma positionIn_nth: "v \<in> set vs \<Longrightarrow> vs ! positionIn v vs = v"
  unfolding positionIn_def by (induction vs) auto

lemma getVerifierIndex_Inr:
  assumes "getVerifierIndex sid v r = Inr idx"
  shows "v \<in> set (getSnapshotVerifiers sid r)"
    and "idx = positionIn v (getSnapshotVerifiers sid r) mod 256"
proof -
  show m: "v \<in> set (getSnapshotVerifiers sid r)"
    using assms getVerifierIndex_absent [of v sid r] by (cases "v \<in> set (getSnapshotVerifiers sid r)") simp_all
  then show "idx = positionIn v (getSnapshotVerifiers sid r) mod 256"
    using assms getVerifierIndex_present [of v sid r] by simp
qed

lemma createSnapshot_Inr:
  assumes "createSnapshot sender ck now r = Inr (sid, r')"
  shows "sid = nextSnapshotId r" and "nextSnapshotId r' = nextSnapshotId r + 1"
    and "snapshots r' = (snapshots r)
           (sid := \<lparr>verifiers = sortAddresses (activeVerifiers r), timestamp = now\<rparr>)"
  using assms
  by (auto simp: createSnapshot_def Let_def checked_def split: if_splits sum.splits)

lemma firstSubmission_cases:
  assumes "firstSubmission ck now w = Inr w1"
  obtains (same) "snapshotId (claimBuckets (productionOracle w) ck) \<noteq> 0" and "w1 = w"
  | (created) sid r' d where "snapshotId (claimBuckets (productionOracle w) ck) = 0"
      and "createSnapshot (oracleAddress (productionOracle w)) ck now (registry w) = Inr (sid, r')"
      and "w1 = w\<lparr> registry := r',
             productionOracle := (productionOracle w)\<lparr>claimBuckets :=
               (claimBuckets (productionOracle w))
                 (ck := (claimBuckets (productionOracle w) ck)\<lparr>snapshotId := sid, deadline := d\<rparr>)\<rparr> \<rparr>"
  using assms unfolding firstSubmission_def Let_def
  by (auto split: if_splits sum.splits prod.splits)


lemma same_views:
  assumes "sameSubmissions w w'"
    and "snapshotId (claimBuckets (productionOracle w) ck) < nextSnapshotId (registry w)"
  shows "snapshotOf ck w' = snapshotOf ck w"
    and "untouched ck w' = untouched ck w"
    and "bitmapsCounted ck w' = bitmapsCounted ck w"
proof -
  from assms(1) have b: "snapshotId (claimBuckets (productionOracle w') ck)
        = snapshotId (claimBuckets (productionOracle w) ck)"
      "allSubmittersBitmap (claimBuckets (productionOracle w') ck)
        = allSubmittersBitmap (claimBuckets (productionOracle w) ck)"
      "submissionCount (claimBuckets (productionOracle w') ck)
        = submissionCount (claimBuckets (productionOracle w) ck)"
    and v: "valueSubmissions (productionOracle w') = valueSubmissions (productionOracle w)"
    and h: "hasSubmitted (productionOracle w') = hasSubmitted (productionOracle w)"
    and s: "\<forall>sid < nextSnapshotId (registry w).
              snapshots (registry w') sid = snapshots (registry w) sid"
    unfolding sameSubmissions_def by blast+
  show snap: "snapshotOf ck w' = snapshotOf ck w"
    unfolding snapshotOf_def getSnapshotVerifiers_def using s assms(2) by (simp add: b)
  show "untouched ck w' = untouched ck w"
    unfolding untouched_def by (simp only: b v)
  show "bitmapsCounted ck w' = bitmapsCounted ck w"
    unfolding bitmapsCounted_def by (simp only: b v h snap)
qed

lemma sameSubmissions_kept:
  assumes "sameSubmissions w w'" and "snapshotsKept w" and "submittersCounted w"
  shows "snapshotsKept w' \<and> submittersCounted w'"
proof -
  have ids: "snapshotId (claimBuckets (productionOracle w) ck) < nextSnapshotId (registry w)" for ck
    using assms(2) unfolding snapshotsKept_def by blast
  have zero: "snapshotId (claimBuckets (productionOracle w) ck) = 0 \<Longrightarrow> untouched ck w" for ck
    using assms(2) unfolding snapshotsKept_def by blast
  have pos: "0 < nextSnapshotId (registry w)"
    using assms(2) unfolding snapshotsKept_def by blast
  have mono: "nextSnapshotId (registry w) \<le> nextSnapshotId (registry w')"
    using assms(1) unfolding sameSubmissions_def by blast
  have sid: "snapshotId (claimBuckets (productionOracle w') ck)
        = snapshotId (claimBuckets (productionOracle w) ck)" for ck
    using assms(1) unfolding sameSubmissions_def by blast
  note views = same_views [OF assms(1) ids]
  have "snapshotsKept w'"
    unfolding snapshotsKept_def
  proof (intro conjI allI impI)
    show "0 < nextSnapshotId (registry w')"
      using pos mono by simp
  next
    fix ck
    show "snapshotId (claimBuckets (productionOracle w') ck) < nextSnapshotId (registry w')"
      using ids [of ck] mono by (simp add: sid)
  next
    fix ck
    assume "snapshotId (claimBuckets (productionOracle w') ck) = 0"
    then show "untouched ck w'"
      using zero [of ck] by (simp add: sid views(2))
  qed
  moreover have "submittersCounted w'"
    unfolding submittersCounted_def
  proof (intro allI impI)
    fix ck
    assume "snapshotId (claimBuckets (productionOracle w') ck) \<noteq> 0
        \<and> length (snapshotOf ck w') \<le> 16"
    then have "snapshotId (claimBuckets (productionOracle w) ck) \<noteq> 0
        \<and> length (snapshotOf ck w) \<le> 16"
      by (simp add: sid views(1))
    then have "bitmapsCounted ck w"
      using assms(3) unfolding submittersCounted_def by blast
    then show "bitmapsCounted ck w'"
      by (simp add: views(3))
  qed
  ultimately show ?thesis ..
qed


lemma finalizeWithValue_hasSubmitted:
  assumes "finalizeWithValue ck pid hourId wh root bm w = Inr w'"
  shows "hasSubmitted (productionOracle w') = hasSubmitted (productionOracle w)"
proof -
  let ?o = "productionOracle w"
  let ?w1 = "w\<lparr>productionOracle := ?o\<lparr>claimBuckets := (claimBuckets ?o)
      (ck := finalizedBucket (claimBuckets ?o ck) wh root bm)\<rparr>\<rparr>"
  from assms obtain producer where "getProducer pid (registry w) = Inr producer"
    by (cases "getProducer pid (registry w)") (simp_all add: finalizeWithValue_def Let_def)
  moreover from assms calculation obtain h where
    "mint (oracleAddress ?o) (payoutAddr producer) hourId wh ck (hourlyCredits w) = Inr h"
    by (cases "mint (oracleAddress ?o) (payoutAddr producer) hourId wh ck (hourlyCredits w)")
       (simp_all add: finalizeWithValue_def Let_def)
  moreover from assms calculation obtain w2 where
    d: "distributeRewards (oracleAddress ?o) bm (snapshotId (claimBuckets ?o ck)) wh
          (?w1\<lparr>hourlyCredits := h\<rparr>) = Inr w2"
    and w': "w' = w2\<lparr>productionOracle := (productionOracle w2)
               \<lparr>o_events := o_events (productionOracle w2)
                  @ [ProductionFinalized ck pid hourId wh root]\<rparr>\<rparr>"
    by (cases "distributeRewards (oracleAddress ?o) bm (snapshotId (claimBuckets ?o ck)) wh
          (?w1\<lparr>hourlyCredits := h\<rparr>)")
       (simp_all add: finalizeWithValue_def Let_def finalizedBucket_def)
  from distributeRewards_frame [OF d] show ?thesis
    by (simp add: w')
qed

lemma finalizeWithValue_same:
  assumes "finalizeWithValue ck pid hourId wh root bm w = Inr w'"
  shows "sameSubmissions w w'"
  unfolding sameSubmissions_def
  using finalizeWithValue_Inr(1,2,6) [OF assms] finalizeWithValue_hasSubmitted [OF assms]
  by simp

lemma sameSubmissions_trans:
  assumes "sameSubmissions w w1" and "sameSubmissions w1 w2"
  shows "sameSubmissions w w2"
  using assms unfolding sameSubmissions_def
  by (auto simp del: split_paired_All)

lemma recordFaults_same:
  assumes "recordFaults sender bm sid ft w = Inr w'"
  shows "sameSubmissions w w'"
  unfolding sameSubmissions_def using recordFaults_frame [OF assms] by simp

lemma finalizeProduction_same:
  assumes "finalizeProduction pid hourId now w = Inr w'"
  shows "sameSubmissions w w'"
proof -
  from assms obtain q where d: "deadlinePassed pid hourId now w"
    and q: "requiredOf pid hourId w = Inr q"
    by (rule finalizeProduction_Inr)
  let ?win = "winnerOf pid hourId w"
  show ?thesis
  proof (cases "maxCountOf pid hourId w < q")
    case True
    with assms d q have "w' = disputedWorld pid hourId w"
      by (simp add: finalizeProduction_unfold)
    then show ?thesis
      unfolding sameSubmissions_def by (simp add: disputedWorld_def bucketOf_def)
  next
    case False
    with assms d q obtain w1 where
      f: "finalizeWithValue (getClaimKey pid hourId) pid hourId (energyWh ?win)
            (vs_evidenceRoot ?win) (verifierBitmap ?win) w = Inr w1"
      by (cases "finalizeWithValue (getClaimKey pid hourId) pid hourId (energyWh ?win)
            (vs_evidenceRoot ?win) (verifierBitmap ?win) w")
         (simp_all add: finalizeProduction_unfold)
    let ?losers = "(allSubmittersBitmap (bucketOf pid hourId w1) XOR verifierBitmap ?win)
                     AND allSubmittersBitmap (bucketOf pid hourId w1)"
    have "sameSubmissions w1 w'"
    proof (cases "?losers = 0")
      case True
      with assms d q f False have "w' = w1"
        by (simp add: finalizeProduction_unfold)
      then show ?thesis
        unfolding sameSubmissions_def by simp
    next
      case losers: False
      with assms d q f False have "recordFaults (oracleAddress (productionOracle w)) ?losers
          (snapshotId (bucketOf pid hourId w1)) WrongValue w1 = Inr w'"
        by (simp add: finalizeProduction_unfold)
      then show ?thesis
        by (rule recordFaults_same)
    qed
    with finalizeWithValue_same [OF f] show ?thesis
      by (rule sameSubmissions_trans)
  qed
qed

lemma forceFinalize_same:
  assumes "forceFinalize sender pid hourId wh root now w = Inr w'"
  shows "sameSubmissions w w'"
  using assms unfolding forceFinalize_def sameSubmissions_def Let_def
  by (auto split: if_splits sum.splits simp del: split_paired_All)


lemma firstSubmission_kept:
  assumes "firstSubmission ck now w = Inr w1" and "snapshotsKept w" and "submittersCounted w"
  shows "snapshotsKept w1" and "submittersCounted w1"
    and "snapshotId (claimBuckets (productionOracle w1) ck) \<noteq> 0"
proof -
  have ids: "snapshotId (claimBuckets (productionOracle w) k) < nextSnapshotId (registry w)" for k
    using assms(2) unfolding snapshotsKept_def by blast
  have zero: "snapshotId (claimBuckets (productionOracle w) k) = 0 \<Longrightarrow> untouched k w" for k
    using assms(2) unfolding snapshotsKept_def by blast
  have pos: "0 < nextSnapshotId (registry w)"
    using assms(2) unfolding snapshotsKept_def by blast
  have counted: "snapshotId (claimBuckets (productionOracle w) k) \<noteq> 0
      \<Longrightarrow> length (snapshotOf k w) \<le> 16 \<Longrightarrow> bitmapsCounted k w" for k
    using assms(3) unfolding submittersCounted_def by blast
  from assms(1)
  have "snapshotsKept w1 \<and> submittersCounted w1
      \<and> snapshotId (claimBuckets (productionOracle w1) ck) \<noteq> 0"
  proof (cases rule: firstSubmission_cases)
    case same
    with assms(2,3) show ?thesis
      by simp
  next
    case (created sid r' d)
    note c = createSnapshot_Inr [OF created(2)]
    have sid: "sid \<noteq> 0"
      using pos c(1) by simp
    have b: "claimBuckets (productionOracle w1) k
        = (if k = ck then (claimBuckets (productionOracle w) ck)\<lparr>snapshotId := sid, deadline := d\<rparr>
           else claimBuckets (productionOracle w) k)" for k
      by (simp add: created(3))
    have v: "valueSubmissions (productionOracle w1) = valueSubmissions (productionOracle w)"
      and h: "hasSubmitted (productionOracle w1) = hasSubmitted (productionOracle w)"
      and r: "registry w1 = r'"
      by (simp_all add: created(3))
    have snap: "snapshotOf k w1 = snapshotOf k w" if "k \<noteq> ck" for k
      using that ids [of k] c(1)
      by (simp add: snapshotOf_def getSnapshotVerifiers_def b r c(3))
    have kept: "snapshotsKept w1"
      unfolding snapshotsKept_def
    proof (intro conjI allI impI)
      show "0 < nextSnapshotId (registry w1)"
        by (simp add: r c(2))
    next
      fix k
      show "snapshotId (claimBuckets (productionOracle w1) k) < nextSnapshotId (registry w1)"
        using ids [of k] c(1) by (simp add: b r c(2))
    next
      fix k
      assume z: "snapshotId (claimBuckets (productionOracle w1) k) = 0"
      with sid have "k \<noteq> ck"
        by (auto simp: b)
      with z zero [of k] show "untouched k w1"
        by (simp add: untouched_def b v)
    qed
    have "submittersCounted w1"
      unfolding submittersCounted_def
    proof (intro allI impI)
      fix k
      assume a: "snapshotId (claimBuckets (productionOracle w1) k) \<noteq> 0
          \<and> length (snapshotOf k w1) \<le> 16"
      show "bitmapsCounted k w1"
      proof (cases "k = ck")
        case True
        from zero [OF created(1)] show ?thesis
          unfolding bitmapsCounted_def untouched_def
          by (simp add: True b v popcount_values)
      next
        case False
        with a have "bitmapsCounted k w"
          by (intro counted) (simp_all add: b snap)
        with False show ?thesis
          unfolding bitmapsCounted_def by (simp add: b v h snap)
      qed
    qed
    with kept sid show ?thesis
      by (simp add: b)
  qed
  then show "snapshotsKept w1" and "submittersCounted w1"
    and "snapshotId (claimBuckets (productionOracle w1) ck) \<noteq> 0"
    by blast+
qed

lemma accepted_more:
  "registry (accepted ck wh root v idx w) = registry w"
  "hasSubmitted (productionOracle (accepted ck wh root v idx w)) k u
     = (if k = ck \<and> u = v then True else hasSubmitted (productionOracle w) k u)"
  by (simp_all add: accepted_def Let_def)


lemma accepted_kept:
  assumes "snapshotsKept w" and "submittersCounted w"
    and nz: "snapshotId (claimBuckets (productionOracle w) ck) \<noteq> 0"
    and idx: "getVerifierIndex (snapshotId (claimBuckets (productionOracle w) ck)) v (registry w)
                = Inr idx"
    and new: "\<not> hasSubmitted (productionOracle w) ck v"
  shows "snapshotsKept (accepted ck wh root v idx w)"
    and "submittersCounted (accepted ck wh root v idx w)"
proof -
  let ?wa = "accepted ck wh root v idx w"
  let ?b = "claimBuckets (productionOracle w) ck"
  let ?t = "valueSubmissions (productionOracle w) ck"
  have sid: "snapshotId (claimBuckets (productionOracle ?wa) k)
        = snapshotId (claimBuckets (productionOracle w) k)" for k
    by (simp add: accepted_views)
  have snap: "snapshotOf k ?wa = snapshotOf k w" for k
    by (simp add: snapshotOf_def sid accepted_more)
  have others: "claimBuckets (productionOracle ?wa) k = claimBuckets (productionOracle w) k"
      "valueSubmissions (productionOracle ?wa) k = valueSubmissions (productionOracle w) k"
      "hasSubmitted (productionOracle ?wa) k = hasSubmitted (productionOracle w) k"
    if "k \<noteq> ck" for k
    using that by (auto simp: accepted_views accepted_more)
  have ids: "snapshotId (claimBuckets (productionOracle w) k) < nextSnapshotId (registry w)" for k
    using assms(1) unfolding snapshotsKept_def by blast
  have zero: "snapshotId (claimBuckets (productionOracle w) k) = 0 \<Longrightarrow> untouched k w" for k
    using assms(1) unfolding snapshotsKept_def by blast
  have pos: "0 < nextSnapshotId (registry w)"
    using assms(1) unfolding snapshotsKept_def by blast
  have counted: "snapshotId (claimBuckets (productionOracle w) k) \<noteq> 0
      \<Longrightarrow> length (snapshotOf k w) \<le> 16 \<Longrightarrow> bitmapsCounted k w" for k
    using assms(2) unfolding submittersCounted_def by blast
  show "snapshotsKept ?wa"
    unfolding snapshotsKept_def
  proof (intro conjI allI impI)
    show "0 < nextSnapshotId (registry ?wa)"
      using pos by (simp add: accepted_more)
  next
    fix k
    show "snapshotId (claimBuckets (productionOracle ?wa) k) < nextSnapshotId (registry ?wa)"
      using ids [of k] by (simp add: accepted_more sid)
  next
    fix k
    assume z: "snapshotId (claimBuckets (productionOracle ?wa) k) = 0"
    with nz have k: "k \<noteq> ck"
      by (auto simp: sid)
    from z have "untouched k w"
      by (intro zero) (simp add: sid)
    then show "untouched k ?wa"
      unfolding untouched_def by (simp add: others [OF k])
  qed
  show "submittersCounted ?wa"
    unfolding submittersCounted_def
  proof (intro allI impI)
    fix k
    assume a: "snapshotId (claimBuckets (productionOracle ?wa) k) \<noteq> 0
        \<and> length (snapshotOf k ?wa) \<le> 16"
    then have old: "bitmapsCounted k w"
      by (intro counted) (simp_all add: sid snap)
    show "bitmapsCounted k ?wa"
    proof (cases "k = ck")
      case False
      from old show ?thesis
        unfolding bitmapsCounted_def by (simp add: others [OF False] snap)
    next
      case True
      let ?vs = "snapshotOf ck w"
      let ?i = "positionIn v ?vs"
      from a have short: "length ?vs \<le> 16"
        by (simp add: True snap)
      from getVerifierIndex_Inr [OF idx] have mem: "v \<in> set ?vs"
        and idx': "idx = ?i mod 256"
        by (simp_all add: snapshotOf_def)
      from mem have less: "?i < length ?vs" and at: "?vs ! ?i = v"
        by (rule positionIn_less, rule positionIn_nth)
      with short idx' have i: "idx = ?i" and i16: "?i < 16"
        by simp_all
      from old have cnt: "submissionCount ?b = popcount (allSubmittersBitmap ?b)"
        and bits: "\<And>j. bit (allSubmittersBitmap ?b) j
                    \<Longrightarrow> j < length ?vs \<and> hasSubmitted (productionOracle w) ck (?vs ! j)"
        and tcnt: "\<And>h. count (?t h) = popcount (verifierBitmap (?t h))"
        and tbits: "\<And>h j. bit (verifierBitmap (?t h)) j
                    \<Longrightarrow> j < length ?vs \<and> hasSubmitted (productionOracle w) ck (?vs ! j)"
        unfolding bitmapsCounted_def True by blast+
      have free: "\<not> bit (allSubmittersBitmap ?b) ?i"
        using bits [of ?i] new at by auto
      have tfree: "\<not> bit (verifierBitmap (?t h)) ?i" for h
        using tbits [of h ?i] new at by auto
      have one: "submissionCount (claimBuckets (productionOracle ?wa) ck)
          = popcount (allSubmittersBitmap (claimBuckets (productionOracle ?wa) ck))"
        using popcount_set_bit [OF i16 free] cnt by (simp add: accepted_views i)
      have two: "j < length (snapshotOf ck ?wa)
          \<and> hasSubmitted (productionOracle ?wa) ck (snapshotOf ck ?wa ! j)"
        if "bit (allSubmittersBitmap (claimBuckets (productionOracle ?wa) ck)) j" for j
      proof (cases "j = ?i")
        case True
        with less at show ?thesis
          by (simp add: snap accepted_more)
      next
        case False
        with that have "bit (allSubmittersBitmap ?b) j"
          by (simp add: accepted_views i bit_or_mask)
        from bits [OF this] show ?thesis
          by (simp add: snap accepted_more)
      qed
      have three: "count (valueSubmissions (productionOracle ?wa) ck h)
          = popcount (verifierBitmap (valueSubmissions (productionOracle ?wa) ck h))" for h
      proof (cases "h = (wh, root)")
        case True
        show ?thesis
          using popcount_set_bit [OF i16 tfree [of "(wh, root)"]] tcnt [of "(wh, root)"]
          by (simp add: accepted_views True i)
      next
        case False
        with tcnt [of h] show ?thesis
          by (simp add: accepted_views)
      qed
      have four: "j < length (snapshotOf ck ?wa)
          \<and> hasSubmitted (productionOracle ?wa) ck (snapshotOf ck ?wa ! j)"
        if "bit (verifierBitmap (valueSubmissions (productionOracle ?wa) ck h)) j" for h j
      proof (cases "j = ?i")
        case True
        with less at show ?thesis
          by (simp add: snap accepted_more)
      next
        case False
        with that have "bit (verifierBitmap (?t h)) j"
          by (cases "h = (wh, root)") (simp_all add: accepted_views i bit_or_mask)
        from tbits [OF this] show ?thesis
          by (simp add: snap accepted_more)
      qed
      from one two three four show ?thesis
        unfolding bitmapsCounted_def True by blast
    qed
  qed
qed


lemma submitProduction_kept:
  assumes "submitProduction pid hourId wh root recovered now w = Inr w'"
    and "snapshotsKept w" and "submittersCounted w"
  shows "snapshotsKept w' \<and> submittersCounted w'"
proof -
  let ?ck = "getClaimKey pid hourId"
  from assms(1) obtain w1 idx where f: "firstSubmission ?ck now w = Inr w1"
    and i: "getVerifierIndex (snapshotId (bucketOf pid hourId w1)) recovered (registry w1) = Inr idx"
    and n: "\<not> hasSubmitted (productionOracle w1) ?ck recovered"
    and a: "acceptSubmission ?ck pid hourId wh root recovered idx w1 = Inr w'"
    by (rule submitProduction_Inr)
  note k1 = firstSubmission_kept [OF f assms(2,3)]
  from i have i': "getVerifierIndex (snapshotId (claimBuckets (productionOracle w1) ?ck)) recovered
      (registry w1) = Inr idx"
    by (simp add: bucketOf_def)
  have ka: "snapshotsKept (accepted ?ck wh root recovered idx w1)"
    "submittersCounted (accepted ?ck wh root recovered idx w1)"
    by (rule accepted_kept [OF k1(1,2,3) i' n])+
  show ?thesis
  proof (cases "baselineMode (productionOracle w1) \<and> singleVerifierOverride (productionOracle w1) \<noteq> 0
              \<and> recovered = singleVerifierOverride (productionOracle w1)")
    case False
    with a have "w' = accepted ?ck wh root recovered idx w1"
      by (simp add: acceptSubmission_eq split: if_splits)
    with ka show ?thesis
      by simp
  next
    case True
    with a have "finalizeWithValue ?ck pid hourId wh root
        (verifierBitmap (valueSubmissions (productionOracle w1) ?ck (wh, root)) OR push_bit idx 1)
        (accepted ?ck wh root recovered idx w1) = Inr w'"
      by (simp add: acceptSubmission_eq split: if_splits)
    then have "sameSubmissions (accepted ?ck wh root recovered idx w1) w'"
      by (rule finalizeWithValue_same)
    then show ?thesis
      using ka by (rule sameSubmissions_kept)
  qed
qed

lemma reachable_counted:
  "reachable w \<Longrightarrow> snapshotsKept w \<and> submittersCounted w"
proof (induction rule: reachable.induct)
  case (fresh w)
  then show ?case
    unfolding snapshotsKept_def submittersCounted_def untouched_def
    by (simp add: noBucket_def zeroSubmission_def)
next
  case (submit w pid hourId wh root recovered now w')
  then show ?case
    using submitProduction_kept by blast
next
  case (finalize w pid hourId now w')
  from finalizeProduction_same [OF finalize.hyps(2)] finalize.IH show ?case
    using sameSubmissions_kept by blast
next
  case (force w sender pid hourId wh root now w')
  from forceFinalize_same [OF force.hyps(2)] force.IH show ?case
    using sameSubmissions_kept by blast
next
  case (other w w')
  then have "sameSubmissions w w'"
    unfolding sameSubmissions_def by simp
  with other.IH show ?case
    using sameSubmissions_kept by blast
qed

lemma reachable_tallies:
  assumes "reachable w" and "length (snapshotOf ck w) \<le> 16"
  shows "count (valueSubmissions (productionOracle w) ck h)
           = popcount (verifierBitmap (valueSubmissions (productionOracle w) ck h))"
    and "submissionCount (claimBuckets (productionOracle w) ck)
           = popcount (allSubmittersBitmap (claimBuckets (productionOracle w) ck))"
    and "submissionCount (claimBuckets (productionOracle w) ck) \<le> length (snapshotOf ck w)"
proof -
  from reachable_counted [OF assms(1)] have k: "snapshotsKept w" and c: "submittersCounted w"
    by blast+
  let ?b = "claimBuckets (productionOracle w) ck"
  have "count (valueSubmissions (productionOracle w) ck h)
           = popcount (verifierBitmap (valueSubmissions (productionOracle w) ck h))
      \<and> submissionCount ?b = popcount (allSubmittersBitmap ?b)
      \<and> (\<forall>i. bit (allSubmittersBitmap ?b) i \<longrightarrow> i < length (snapshotOf ck w))"
  proof (cases "snapshotId ?b = 0")
    case True
    then have "untouched ck w"
      using k unfolding snapshotsKept_def by blast
    then show ?thesis
      unfolding untouched_def by (simp add: popcount_values del: split_paired_All)
  next
    case False
    with assms(2) have "bitmapsCounted ck w"
      using c unfolding submittersCounted_def by blast
    then show ?thesis
      unfolding bitmapsCounted_def by blast
  qed
  then have t: "count (valueSubmissions (productionOracle w) ck h)
           = popcount (verifierBitmap (valueSubmissions (productionOracle w) ck h))"
    and s: "submissionCount ?b = popcount (allSubmittersBitmap ?b)"
    and b: "\<forall>i. bit (allSubmittersBitmap ?b) i \<longrightarrow> i < length (snapshotOf ck w)"
    by blast+
  from t show "count (valueSubmissions (productionOracle w) ck h)
           = popcount (verifierBitmap (valueSubmissions (productionOracle w) ck h))" .
  from s show "submissionCount ?b = popcount (allSubmittersBitmap ?b)" .
  from popcount_le [OF b] show "submissionCount ?b \<le> length (snapshotOf ck w)"
    by (simp add: s)
qed

lemma winner_counted:
  assumes "reachable w"
    and "getSnapshotCount (snapshotId (bucketOf pid hourId w)) (registry w) \<le> 16"
  shows "count (winnerOf pid hourId w) = popcount (verifierBitmap (winnerOf pid hourId w))"
proof -
  have short: "length (snapshotOf (getClaimKey pid hourId) w) \<le> 16"
    using assms(2)
    by (simp add: snapshotOf_def getSnapshotVerifiers_def getSnapshotCount_def bucketOf_def)
  from winnerOf_tally [of pid hourId w] show ?thesis
  proof
    assume "winnerOf pid hourId w = zeroSubmission"
    then show ?thesis
      by (simp add: zeroSubmission_def popcount_values)
  next
    assume "\<exists>h. winnerOf pid hourId w = tallyOf pid hourId w h"
    then obtain h where "winnerOf pid hourId w = tallyOf pid hourId w h" ..
    with reachable_tallies(1) [OF assms(1) short, of h] show ?thesis
      by (simp add: tallyOf_def)
  qed
qed

lemma submitProduction_baseline:
  assumes "submitProduction pid hourId wh root v now w = Inr w'"
    and "finalized (bucketOf pid hourId w')"
  shows "baselineMode (productionOracle w) \<and> v = singleVerifierOverride (productionOracle w)
       \<and> verifiedEnergyWh (bucketOf pid hourId w') = wh
       \<and> winningVerifierBitmap (bucketOf pid hourId w')
           = verifierBitmap (tallyOf pid hourId w' (wh, root))"
proof -
  let ?ck = "getClaimKey pid hourId"
  from assms(1) obtain w1 idx where n: "\<not> finalized (bucketOf pid hourId w)"
    and f: "firstSubmission ?ck now w = Inr w1"
    and a: "acceptSubmission ?ck pid hourId wh root v idx w1 = Inr w'"
    by (rule submitProduction_Inr)
  note f1 = firstSubmission_Inr [OF f]
  let ?wa = "accepted ?ck wh root v idx w1"
  let ?bm = "verifierBitmap (valueSubmissions (productionOracle w1) ?ck (wh, root)) OR push_bit idx 1"
  have na: "\<not> finalized (claimBuckets (productionOracle ?wa) ?ck)"
    using n f1(4) [of ?ck] by (simp add: accepted_views bucketOf_def)
  show ?thesis
  proof (cases "baselineMode (productionOracle w1) \<and> singleVerifierOverride (productionOracle w1) \<noteq> 0
              \<and> v = singleVerifierOverride (productionOracle w1)")
    case False
    with a have "w' = ?wa"
      by (simp add: acceptSubmission_eq split: if_splits)
    with na assms(2) show ?thesis
      by (simp add: bucketOf_def)
  next
    case True
    with a have fin: "finalizeWithValue ?ck pid hourId wh root ?bm ?wa = Inr w'"
      by (simp add: acceptSubmission_eq split: if_splits)
    have "verifierBitmap (valueSubmissions (productionOracle ?wa) ?ck (wh, root)) = ?bm"
      by (simp add: accepted_views)
    with finalizeWithValue_Inr(1,2) [OF fin] True f1(5,6) show ?thesis
      by (simp add: bucketOf_def tallyOf_def)
  qed
qed

lemma finalizeProduction_finalized:
  assumes run: "finalizeProduction pid hourId now w = Inr w'"
    and fin: "finalized (bucketOf pid hourId w')"
    and req: "requiredOf pid hourId w = Inr q"
  shows "winningVerifierBitmap (bucketOf pid hourId w') = verifierBitmap (winnerOf pid hourId w)"
    and "q \<le> count (winnerOf pid hourId w)"
proof -
  from run obtain q' where d: "deadlinePassed pid hourId now w"
    and "requiredOf pid hourId w = Inr q'"
    by (rule finalizeProduction_Inr)
  have reached: "q \<le> maxCountOf pid hourId w"
  proof (rule ccontr)
    assume "\<not> q \<le> maxCountOf pid hourId w"
    with run req d have "w' = disputedWorld pid hourId w"
      by (simp add: finalizeProduction_unfold)
    with fin show False
      by (simp add: disputedWorld_views)
  qed
  with d req have "bucketOf pid hourId w'
           = finalizedBucket (bucketOf pid hourId w) (energyWh (winnerOf pid hourId w))
               (vs_evidenceRoot (winnerOf pid hourId w)) (verifierBitmap (winnerOf pid hourId w))"
    using run by (intro finalizeProduction_quorum)
  then show "winningVerifierBitmap (bucketOf pid hourId w') = verifierBitmap (winnerOf pid hourId w)"
    by simp
  from reached show "q \<le> count (winnerOf pid hourId w)"
    by (simp add: winnerOf_count)
qed

text \<open>
  C2 (as amended). In every state that the system reaches, a finalized bucket has
  \<open>verifiedEnergyWh \<le> maxSubmittedEnergyWh\<close>, whichever path finalized it. The bound on the
  winning bitmap belongs to \<open>finalizeProduction\<close>: a bucket that it finalizes carries the bitmap
  of the winning tally, that tally counts at least
  \<open>quorumRequired = \<lceil>snapshotCount * quorumBps / 10000\<rceil>\<close> submissions, and while the snapshot
  of the claim has at most 16 verifiers, one bit for each, the count is the number of bits of
  the bitmap: \<open>popcount(winningVerifierBitmap) \<ge> quorumRequired\<close>. \<open>forceFinalize\<close> finalizes a
  disputed claim with an energy value up to the maximum submitted and with the winning bitmap
  0; a submission finalizes the claim only through the baseline shortcut, with the bitmap of
  the tally of the value just submitted and no comparison with the quorum.
\<close>

theorem finalized_bucket_bounds:
  "(reachable w \<and> finalized (claimBuckets (productionOracle w) ck) \<longrightarrow>
      verifiedEnergyWh (claimBuckets (productionOracle w) ck)
        \<le> maxSubmittedEnergyWh (claimBuckets (productionOracle w) ck))
   \<and> (finalizeProduction pid hourId now wa = Inr wa' \<and> finalized (bucketOf pid hourId wa')
        \<and> requiredOf pid hourId wa = Inr q \<longrightarrow>
      winningVerifierBitmap (bucketOf pid hourId wa') = verifierBitmap (winnerOf pid hourId wa)
      \<and> q \<le> count (winnerOf pid hourId wa)
      \<and> q = (getSnapshotCount (snapshotId (bucketOf pid hourId wa)) (registry wa)
                * quorumBps (productionOracle wa) + 9999) div 10000)
   \<and> (reachable wa \<and> finalizeProduction pid hourId now wa = Inr wa'
        \<and> finalized (bucketOf pid hourId wa') \<and> requiredOf pid hourId wa = Inr q
        \<and> getSnapshotCount (snapshotId (bucketOf pid hourId wa)) (registry wa) \<le> 16 \<longrightarrow>
      count (winnerOf pid hourId wa) = popcount (winningVerifierBitmap (bucketOf pid hourId wa'))
      \<and> q \<le> popcount (winningVerifierBitmap (bucketOf pid hourId wa')))
   \<and> (forceFinalize sender fpid fhour fwh froot fnow wb = Inr wb' \<longrightarrow>
      finalized (bucketOf fpid fhour wb') \<and> verifiedEnergyWh (bucketOf fpid fhour wb') = fwh
      \<and> fwh \<le> maxSubmittedEnergyWh (bucketOf fpid fhour wb')
      \<and> winningVerifierBitmap (bucketOf fpid fhour wb') = 0)
   \<and> (submitProduction spid shour swh sroot v snow wc = Inr wc'
        \<and> finalized (bucketOf spid shour wc') \<longrightarrow>
      baselineMode (productionOracle wc) \<and> v = singleVerifierOverride (productionOracle wc)
      \<and> verifiedEnergyWh (bucketOf spid shour wc') = swh
      \<and> winningVerifierBitmap (bucketOf spid shour wc')
          = verifierBitmap (tallyOf spid shour wc' (swh, sroot)))"
proof (intro conjI impI)
  assume "reachable w \<and> finalized (claimBuckets (productionOracle w) ck)"
  then show "verifiedEnergyWh (claimBuckets (productionOracle w) ck)
        \<le> maxSubmittedEnergyWh (claimBuckets (productionOracle w) ck)"
    using reachable_bounded [of w] unfolding verifiedBounded_def by blast
next
  assume "finalizeProduction pid hourId now wa = Inr wa' \<and> finalized (bucketOf pid hourId wa')
        \<and> requiredOf pid hourId wa = Inr q"
  then have run: "finalizeProduction pid hourId now wa = Inr wa'"
    and fin: "finalized (bucketOf pid hourId wa')"
    and req: "requiredOf pid hourId wa = Inr q"
    by blast+
  from finalizeProduction_finalized [OF run fin req]
  show "winningVerifierBitmap (bucketOf pid hourId wa') = verifierBitmap (winnerOf pid hourId wa)"
    and "q \<le> count (winnerOf pid hourId wa)"
    by blast+
  from req show "q = (getSnapshotCount (snapshotId (bucketOf pid hourId wa)) (registry wa)
                * quorumBps (productionOracle wa) + 9999) div 10000"
    unfolding requiredOf_def by (rule quorumRequired_ceiling)
next
  assume "reachable wa \<and> finalizeProduction pid hourId now wa = Inr wa'
        \<and> finalized (bucketOf pid hourId wa') \<and> requiredOf pid hourId wa = Inr q
        \<and> getSnapshotCount (snapshotId (bucketOf pid hourId wa)) (registry wa) \<le> 16"
  then have reach: "reachable wa"
    and run: "finalizeProduction pid hourId now wa = Inr wa'"
    and fin: "finalized (bucketOf pid hourId wa')"
    and req: "requiredOf pid hourId wa = Inr q"
    and short: "getSnapshotCount (snapshotId (bucketOf pid hourId wa)) (registry wa) \<le> 16"
    by blast+
  note f = finalizeProduction_finalized [OF run fin req]
  from winner_counted [OF reach short] f(1)
  show c: "count (winnerOf pid hourId wa)
             = popcount (winningVerifierBitmap (bucketOf pid hourId wa'))"
    by simp
  from f(2) show "q \<le> popcount (winningVerifierBitmap (bucketOf pid hourId wa'))"
    by (simp add: c)
next
  assume f: "forceFinalize sender fpid fhour fwh froot fnow wb = Inr wb'"
  note v = forceFinalize_Inr [OF f]
  from v(1) show "finalized (bucketOf fpid fhour wb')"
    and "verifiedEnergyWh (bucketOf fpid fhour wb') = fwh"
    and "winningVerifierBitmap (bucketOf fpid fhour wb') = 0"
    by (simp_all add: bucketOf_def)
  from v(1,3) show "fwh \<le> maxSubmittedEnergyWh (bucketOf fpid fhour wb')"
    by (simp add: bucketOf_def)
next
  assume s: "submitProduction spid shour swh sroot v snow wc = Inr wc'
        \<and> finalized (bucketOf spid shour wc')"
  then have "baselineMode (productionOracle wc) \<and> v = singleVerifierOverride (productionOracle wc)
      \<and> verifiedEnergyWh (bucketOf spid shour wc') = swh
      \<and> winningVerifierBitmap (bucketOf spid shour wc')
          = verifierBitmap (tallyOf spid shour wc' (swh, sroot))"
    using submitProduction_baseline by blast
  then show "baselineMode (productionOracle wc)"
    and "v = singleVerifierOverride (productionOracle wc)"
    and "verifiedEnergyWh (bucketOf spid shour wc') = swh"
    and "winningVerifierBitmap (bucketOf spid shour wc')
          = verifierBitmap (tallyOf spid shour wc' (swh, sroot))"
    by blast+
qed

lemma forced_eval:
  "submitProduction 42 500000 5000 43690 7 1000 claimWorld = Inr oneSubmission"
  "finalizeProduction 42 500000 5000 oneSubmission = Inr (disputedWorld 42 500000 oneSubmission)"
  "forceFinalize 1 42 500000 5000 43690 6000 (disputedWorld 42 500000 oneSubmission)
     = Inr forcedWorld"
proof -
  have "\<not> isl (submitProduction 42 500000 5000 43690 7 1000 claimWorld)"
    by (simp add: scenario_defs submit_eval)
  then show "submitProduction 42 500000 5000 43690 7 1000 claimWorld = Inr oneSubmission"
    unfolding oneSubmission_def by (cases "submitProduction 42 500000 5000 43690 7 1000 claimWorld") simp_all
  show "finalizeProduction 42 500000 5000 oneSubmission = Inr (disputedWorld 42 500000 oneSubmission)"
    by (simp add: oneSubmission_def scenario_defs submit_eval finalize_eval disputedWorld_def
          bucketOf_def)
  have "\<not> isl (forceFinalize 1 42 500000 5000 43690 6000 (disputedWorld 42 500000 oneSubmission))"
    by (simp add: oneSubmission_def scenario_defs submit_eval finalize_eval disputedWorld_def
          bucketOf_def)
  then show "forceFinalize 1 42 500000 5000 43690 6000 (disputedWorld 42 500000 oneSubmission)
     = Inr forcedWorld"
    unfolding forcedWorld_def
    by (cases "forceFinalize 1 42 500000 5000 43690 6000 (disputedWorld 42 500000 oneSubmission)")
       simp_all
qed

lemma reachable_forcedWorld: "reachable forcedWorld"
proof -
  have "reachable claimWorld"
    by (rule reachable.fresh) (simp_all add: scenario_defs)
  then have "reachable oneSubmission"
    using forced_eval(1) by (rule reachable.submit)
  then have "reachable (disputedWorld 42 500000 oneSubmission)"
    using forced_eval(2) by (rule reachable.finalize)
  then show ?thesis
    using forced_eval(3) by (rule reachable.force)
qed

lemma forcedWorld_views:
  "finalized (bucketOf 42 500000 forcedWorld)"
  "verifiedEnergyWh (bucketOf 42 500000 forcedWorld) = 5000"
  "maxSubmittedEnergyWh (bucketOf 42 500000 forcedWorld) = 5000"
  "winningVerifierBitmap (bucketOf 42 500000 forcedWorld) = 0"
  "requiredOf 42 500000 forcedWorld = Inr 2"
  by (simp_all add: forcedWorld_def oneSubmission_def scenario_defs submit_eval finalize_eval
        disputedWorld_def claim_views)

lemma baselineWorld_views:
  "\<not> isl (submitProduction 42 500000 5000 43690 7 1000 baselineWorld)"
  "finalized (bucketOf 42 500000 (projr (submitProduction 42 500000 5000 43690 7 1000 baselineWorld)))"
  "winningVerifierBitmap
     (bucketOf 42 500000 (projr (submitProduction 42 500000 5000 43690 7 1000 baselineWorld))) = 1"
  "requiredOf 42 500000 (projr (submitProduction 42 500000 5000 43690 7 1000 baselineWorld))
     = Inr 2"
proof -
  have one: "popcount 1 = 1"
    by (simp add: popcount_def popcountLoop.simps)
  show "\<not> isl (submitProduction 42 500000 5000 43690 7 1000 baselineWorld)"
    "finalized (bucketOf 42 500000 (projr (submitProduction 42 500000 5000 43690 7 1000 baselineWorld)))"
    "winningVerifierBitmap
       (bucketOf 42 500000 (projr (submitProduction 42 500000 5000 43690 7 1000 baselineWorld))) = 1"
    "requiredOf 42 500000 (projr (submitProduction 42 500000 5000 43690 7 1000 baselineWorld))
       = Inr 2"
    by (simp_all add: baselineWorld_def scenario_defs submit_eval finalize_eval claim_views one)
qed


lemma fundedSubmissions_views:
  "\<not> isl (finalizeProduction 42 500000 5000 fundedSubmissions)"
  "finalized (bucketOf 42 500000 (projr (finalizeProduction 42 500000 5000 fundedSubmissions)))"
  "requiredOf 42 500000 fundedSubmissions = Inr 2"
  "verifierBitmap (winnerOf 42 500000 fundedSubmissions) = 3"
  by (simp_all add: fundedSubmissions_def twoSubmissions_def oneSubmission_def scenario_defs
        submit_eval finalize_eval claim_views)

lemma reachable_fundedSubmissions: "reachable fundedSubmissions"
proof -
  have "reachable claimWorld"
    by (rule reachable.fresh) (simp_all add: scenario_defs)
  then have one: "reachable oneSubmission"
    using forced_eval(1) by (rule reachable.submit)
  have "\<not> isl (submitProduction 42 500000 5000 43690 9 1500 oneSubmission)"
    by (simp add: oneSubmission_def scenario_defs submit_eval)
  then have "submitProduction 42 500000 5000 43690 9 1500 oneSubmission = Inr twoSubmissions"
    unfolding twoSubmissions_def
    by (cases "submitProduction 42 500000 5000 43690 9 1500 oneSubmission") simp_all
  with one have "reachable twoSubmissions"
    by (rule reachable.submit)
  then show ?thesis
    by (rule reachable.other) (simp_all add: fundedSubmissions_def)
qed

lemma fundedSubmissions_snapshot:
  "getSnapshotCount (snapshotId (bucketOf 42 500000 fundedSubmissions)) (registry fundedSubmissions)
     = 2"
  by (simp add: fundedSubmissions_def twoSubmissions_def oneSubmission_def scenario_defs
        submit_eval getSnapshotCount_def bucketOf_def)


theorem finalized_bucket_bounds_witness:
  "reachable forcedWorld
   \<and> finalized (claimBuckets (productionOracle forcedWorld) (42, 500000))
   \<and> verifiedEnergyWh (claimBuckets (productionOracle forcedWorld) (42, 500000))
       \<le> maxSubmittedEnergyWh (claimBuckets (productionOracle forcedWorld) (42, 500000))
   \<and> reachable fundedSubmissions
   \<and> getSnapshotCount (snapshotId (bucketOf 42 500000 fundedSubmissions))
        (registry fundedSubmissions) \<le> 16
   \<and> \<not> isl (finalizeProduction 42 500000 5000 fundedSubmissions)
   \<and> finalized (bucketOf 42 500000 (projr (finalizeProduction 42 500000 5000 fundedSubmissions)))
   \<and> requiredOf 42 500000 fundedSubmissions = Inr 2
   \<and> winningVerifierBitmap
        (bucketOf 42 500000 (projr (finalizeProduction 42 500000 5000 fundedSubmissions))) = 3
   \<and> 2 \<le> count (winnerOf 42 500000 fundedSubmissions)
   \<and> 2 \<le> popcount (winningVerifierBitmap
        (bucketOf 42 500000 (projr (finalizeProduction 42 500000 5000 fundedSubmissions))))
   \<and> forceFinalize 1 42 500000 5000 43690 6000 (disputedWorld 42 500000 oneSubmission)
       = Inr forcedWorld
   \<and> winningVerifierBitmap (bucketOf 42 500000 forcedWorld) = 0
   \<and> \<not> isl (submitProduction 42 500000 5000 43690 7 1000 baselineWorld)
   \<and> finalized (bucketOf 42 500000 (projr (submitProduction 42 500000 5000 43690 7 1000 baselineWorld)))
   \<and> baselineMode (productionOracle baselineWorld)
   \<and> verifiedEnergyWh
        (bucketOf 42 500000 (projr (submitProduction 42 500000 5000 43690 7 1000 baselineWorld)))
       = 5000"
proof -
  obtain wa' where runa: "finalizeProduction 42 500000 5000 fundedSubmissions = Inr wa'"
    using fundedSubmissions_views(1)
    by (cases "finalizeProduction 42 500000 5000 fundedSubmissions") auto
  obtain wc' where runc: "submitProduction 42 500000 5000 43690 7 1000 baselineWorld = Inr wc'"
    using baselineWorld_views(1)
    by (cases "submitProduction 42 500000 5000 43690 7 1000 baselineWorld") auto
  note inst = finalized_bucket_bounds [of forcedWorld "(42, 500000)" 42 500000 5000
      fundedSubmissions wa' 2 1 42 500000 5000 43690 6000 "disputedWorld 42 500000 oneSubmission"
      forcedWorld 42 500000 5000 43690 7 1000 baselineWorld wc']
  have fin: "finalized (claimBuckets (productionOracle forcedWorld) (42, 500000))"
    using forcedWorld_views(1) by (simp add: bucketOf_def getClaimKey_def)
  have fina: "finalized (bucketOf 42 500000 wa')"
    using fundedSubmissions_views(2) by (simp add: runa)
  have finc: "finalized (bucketOf 42 500000 wc')"
    using baselineWorld_views(2) by (simp add: runc)
  have short: "getSnapshotCount (snapshotId (bucketOf 42 500000 fundedSubmissions))
        (registry fundedSubmissions) \<le> 16"
    by (simp add: fundedSubmissions_snapshot)
  from inst reachable_forcedWorld fin
  have one: "verifiedEnergyWh (claimBuckets (productionOracle forcedWorld) (42, 500000))
       \<le> maxSubmittedEnergyWh (claimBuckets (productionOracle forcedWorld) (42, 500000))"
    by blast
  from inst runa fina fundedSubmissions_views(3)
  have two: "winningVerifierBitmap (bucketOf 42 500000 wa')
               = verifierBitmap (winnerOf 42 500000 fundedSubmissions)"
    and two': "2 \<le> count (winnerOf 42 500000 fundedSubmissions)"
    by blast+
  from inst reachable_fundedSubmissions runa fina fundedSubmissions_views(3) short
  have bits: "2 \<le> popcount (winningVerifierBitmap (bucketOf 42 500000 wa'))"
    by blast
  from inst forced_eval(3)
  have three: "winningVerifierBitmap (bucketOf 42 500000 forcedWorld) = 0"
    by blast
  from inst runc finc
  have four: "baselineMode (productionOracle baselineWorld)"
    and four': "verifiedEnergyWh (bucketOf 42 500000 wc') = 5000"
    by blast+
  from reachable_forcedWorld fin one fina two two' three four four' finc forced_eval(3)
    reachable_fundedSubmissions short bits
  show ?thesis
    unfolding runa runc
    by (simp add: fundedSubmissions_views(3,4))
qed

text \<open>
  The claim as stated (every finalized bucket has at least the quorum of bits in its winning
  bitmap) fails on the two paths that do not count submissions: after \<open>forceFinalize\<close> the
  winning bitmap is 0, and after the baseline shortcut it has the one bit of the baseline
  verifier, while the quorum of the two-verifier snapshot is 2.
\<close>

theorem finalized_bucket_counterexample:
  "reachable forcedWorld
   \<and> finalized (bucketOf 42 500000 forcedWorld)
   \<and> requiredOf 42 500000 forcedWorld = Inr 2
   \<and> popcount (winningVerifierBitmap (bucketOf 42 500000 forcedWorld)) = 0
   \<and> \<not> isl (submitProduction 42 500000 5000 43690 7 1000 baselineWorld)
   \<and> finalized (bucketOf 42 500000 (projr (submitProduction 42 500000 5000 43690 7 1000 baselineWorld)))
   \<and> requiredOf 42 500000 (projr (submitProduction 42 500000 5000 43690 7 1000 baselineWorld))
       = Inr 2
   \<and> popcount (winningVerifierBitmap
        (bucketOf 42 500000 (projr (submitProduction 42 500000 5000 43690 7 1000 baselineWorld))))
       = 1"
proof -
  have "popcount 1 = 1"
    by (simp add: popcount_def popcountLoop.simps)
  then show ?thesis
    by (simp add: reachable_forcedWorld forcedWorld_views baselineWorld_views popcount_values)
qed

text \<open>
  The bound on the bits needs the snapshot to fit the bitmap. With seventeen active verifiers
  and a quorum of 1, the submission of the verifier at snapshot index 16 is the winning tally:
  \<open>finalizeProduction\<close> finalizes the claim with the winning bitmap 0.
\<close>

lemma finalized_beyond_sixteen:
  "\<not> isl (submitProduction 42 500000 5000 43690 17 1000 lowQuorumWorld)
   \<and> \<not> isl (finalizeProduction 42 500000 5000
          (projr (submitProduction 42 500000 5000 43690 17 1000 lowQuorumWorld)))
   \<and> requiredOf 42 500000 (projr (submitProduction 42 500000 5000 43690 17 1000 lowQuorumWorld))
       = Inr 1
   \<and> finalized (bucketOf 42 500000 (projr (finalizeProduction 42 500000 5000
          (projr (submitProduction 42 500000 5000 43690 17 1000 lowQuorumWorld)))))
   \<and> winningVerifierBitmap (bucketOf 42 500000 (projr (finalizeProduction 42 500000 5000
          (projr (submitProduction 42 500000 5000 43690 17 1000 lowQuorumWorld))))) = 0"
proof -
  have wrap: "(65536 :: 16 word) = 0"
    by simp
  show ?thesis
    by (simp add: lowQuorumWorld_def seventeenWorld_def registered_def deployment_defs submit_eval
          finalize_eval claim_views wrap)
qed

section \<open>ProductionOracle: finalizing twice\<close>

lemma disputedWorld_again:
  assumes "disputed (bucketOf pid hourId w)" and "\<not> finalized (bucketOf pid hourId w)"
  shows "disputedWorld pid hourId w
          = w\<lparr>productionOracle := (productionOracle w)
               \<lparr>o_events := o_events (productionOracle w)
                  @ [ClaimDisputed (getClaimKey pid hourId) pid hourId ''No quorum reached'']\<rparr>\<rparr>"
proof -
  have "(claimBuckets (productionOracle w))
          (getClaimKey pid hourId := (bucketOf pid hourId w)\<lparr>disputed := True, finalized := False\<rparr>)
        = claimBuckets (productionOracle w)"
    using assms by (simp add: same_bucket) (simp add: bucketOf_def)
  then show ?thesis
    unfolding disputedWorld_def by simp
qed

lemma finalizeProduction_disputes:
  assumes "finalizeProduction pid hourId now w = Inr w'" and "\<not> finalized (bucketOf pid hourId w')"
  obtains q where "deadlinePassed pid hourId now w" and "requiredOf pid hourId w = Inr q"
    and "maxCountOf pid hourId w < q" and "w' = disputedWorld pid hourId w"
proof -
  from assms(1) obtain q where d: "deadlinePassed pid hourId now w"
    and r: "requiredOf pid hourId w = Inr q"
    by (rule finalizeProduction_Inr)
  have below: "maxCountOf pid hourId w < q"
  proof (rule ccontr)
    assume "\<not> maxCountOf pid hourId w < q"
    then have "q \<le> maxCountOf pid hourId w"
      by simp
    from finalizeProduction_quorum [OF d r this assms(1)] assms(2) show False
      by simp
  qed
  with d r assms(1) have "w' = disputedWorld pid hourId w"
    by (simp add: finalizeProduction_unfold)
  with d r below show thesis
    by (rule that)
qed

lemma setQuorumBps_Inr:
  assumes "setQuorumBps sender bps w = Inr w2"
  shows "sender = oracleOwner (productionOracle w)"
    and "w2 = w\<lparr>productionOracle := (productionOracle w)\<lparr>quorumBps := bps\<rparr>\<rparr>"
  using assms by (simp_all add: setQuorumBps_def split: if_splits)

lemma finalized_stays:
  assumes "finalized (claimBuckets (productionOracle w) k)"
  shows "submitProduction pid hourId wh root v now w = Inr w'
           \<Longrightarrow> finalized (claimBuckets (productionOracle w') k)"
    and "finalizeProduction pid hourId now w = Inr w'
           \<Longrightarrow> finalized (claimBuckets (productionOracle w') k)"
    and "forceFinalize sender pid hourId wh root now w = Inr w'
           \<Longrightarrow> finalized (claimBuckets (productionOracle w') k)"
    and "setQuorumBps sender bps w = Inr w'
           \<Longrightarrow> finalized (claimBuckets (productionOracle w') k)"
proof -
  let ?ck = "getClaimKey pid hourId"
  {
    assume s: "submitProduction pid hourId wh root v now w = Inr w'"
    then obtain w1 idx where f: "firstSubmission ?ck now w = Inr w1"
      and a: "acceptSubmission ?ck pid hourId wh root v idx w1 = Inr w'"
      by (rule submitProduction_Inr)
    have f1: "finalized (claimBuckets (productionOracle w1) k)"
      using assms by (simp add: firstSubmission_Inr(4) [OF f])
    then have fa: "finalized (claimBuckets (productionOracle (accepted ?ck wh root v idx w1)) k)"
      by (auto simp: accepted_views)
    show "finalized (claimBuckets (productionOracle w') k)"
    proof (cases "baselineMode (productionOracle w1) \<and> singleVerifierOverride (productionOracle w1) \<noteq> 0
                \<and> v = singleVerifierOverride (productionOracle w1)")
      case False
      with a have "w' = accepted ?ck wh root v idx w1"
        by (simp add: acceptSubmission_eq split: if_splits)
      with fa show ?thesis
        by simp
    next
      case True
      with a have "finalizeWithValue ?ck pid hourId wh root
          (verifierBitmap (valueSubmissions (productionOracle w1) ?ck (wh, root)) OR push_bit idx 1)
          (accepted ?ck wh root v idx w1) = Inr w'"
        by (simp add: acceptSubmission_eq split: if_splits)
      from finalizeWithValue_Inr(1) [OF this] fa show ?thesis
        by simp
    qed
  }
  {
    assume "finalizeProduction pid hourId now w = Inr w'"
    then show "finalized (claimBuckets (productionOracle w') k)"
    proof (cases rule: finalizeProduction_cases)
      case dispute
      from \<open>finalizeProduction pid hourId now w = Inr w'\<close>
      have "\<not> finalized (bucketOf pid hourId w)"
        using finalizeProduction_refused(1) [of pid hourId w now] by auto
      with assms have "k \<noteq> ?ck"
        by (auto simp: bucketOf_def)
      with assms show ?thesis
        by (simp add: dispute disputedWorld_def)
    next
      case (final w1)
      from finalizeWithValue_Inr(1) [OF final(1)] assms final(2) show ?thesis
        by simp
    qed
  }
  {
    assume "forceFinalize sender pid hourId wh root now w = Inr w'"
    from forceFinalize_Inr(1) [OF this] assms
    show "finalized (claimBuckets (productionOracle w') k)"
      by simp
  }
  {
    assume "setQuorumBps sender bps w = Inr w'"
    from setQuorumBps_Inr(2) [OF this] assms
    show "finalized (claimBuckets (productionOracle w') k)"
      by simp
  }
qed


text \<open>
  C8 (as amended). A finalized claim stays finalized, and every \<open>finalizeProduction\<close> call on it
  fails \<open>ClaimAlreadyFinalized\<close> and leaves the state as it is. A call that returns without
  finalizing leaves the claim disputed, and a disputed claim is not closed to further calls
  (the only guard tests \<open>finalized\<close>): a later call decides again on the state it finds. While
  the maximum tally count is below the quorum for the current \<open>quorumBps\<close>, as it is when the
  second call follows the first directly, the call returns and changes nothing but the event
  log, to which it appends another \<open>ClaimDisputed\<close>. After the owner has changed \<open>quorumBps\<close>
  the claim is still disputed with the same tallies, but the quorum is computed from the new
  value; once the count reaches it the call runs the finalization: it finalizes the claim when
  it returns, and it fails \<open>InsufficientRewardPool\<close> while the pool cannot pay the reward.
\<close>

theorem second_finalize:
  "(finalizeProduction pid hourId now w = Inr w' \<longrightarrow>
      (finalized (bucketOf pid hourId w') \<longrightarrow>
         finalizeProduction pid hourId later w' = Inl ClaimAlreadyFinalized
       \<and> transact (finalizeProduction pid hourId later) w' = (Some ClaimAlreadyFinalized, w'))
    \<and> (\<not> finalized (bucketOf pid hourId w') \<longrightarrow> disputed (bucketOf pid hourId w'))
    \<and> (\<not> finalized (bucketOf pid hourId w') \<and> now \<le> later \<longrightarrow>
         finalizeProduction pid hourId later w' = Inr (disputedWorld pid hourId w')
       \<and> disputedWorld pid hourId w'
           = w'\<lparr>productionOracle := (productionOracle w')
                \<lparr>o_events := o_events (productionOracle w')
                   @ [ClaimDisputed (getClaimKey pid hourId) pid hourId ''No quorum reached'']\<rparr>\<rparr>)
    \<and> (\<not> finalized (bucketOf pid hourId w') \<and> now \<le> later
         \<and> setQuorumBps sender bps w' = Inr w2 \<longrightarrow>
         disputed (bucketOf pid hourId w2) \<and> deadlinePassed pid hourId later w2
       \<and> maxCountOf pid hourId w2 = maxCountOf pid hourId w'
       \<and> requiredOf pid hourId w2
           = quorumRequired (getSnapshotCount (snapshotId (bucketOf pid hourId w')) (registry w'))
               bps))
   \<and> (finalized (bucketOf cpid chour wa)
        \<and> (submitProduction spid shour swh sroot sv snow wa = Inr wb
           \<or> finalizeProduction spid shour snow wa = Inr wb
           \<or> forceFinalize ssender spid shour swh sroot snow wa = Inr wb
           \<or> setQuorumBps ssender sbps wa = Inr wb) \<longrightarrow>
      finalized (bucketOf cpid chour wb))
   \<and> (finalized (bucketOf cpid chour wa) \<longrightarrow>
        finalizeProduction cpid chour t wa = Inl ClaimAlreadyFinalized
      \<and> transact (finalizeProduction cpid chour t) wa = (Some ClaimAlreadyFinalized, wa))
   \<and> (disputed (bucketOf dpid dhour wd) \<and> deadlinePassed dpid dhour dt wd
        \<and> requiredOf dpid dhour wd = Inr dq \<longrightarrow>
        (maxCountOf dpid dhour wd < dq \<longrightarrow>
           finalizeProduction dpid dhour dt wd = Inr (disputedWorld dpid dhour wd)
         \<and> disputedWorld dpid dhour wd
             = wd\<lparr>productionOracle := (productionOracle wd)
                  \<lparr>o_events := o_events (productionOracle wd)
                     @ [ClaimDisputed (getClaimKey dpid dhour) dpid dhour ''No quorum reached'']\<rparr>\<rparr>)
      \<and> (dq \<le> maxCountOf dpid dhour wd \<and> finalizeProduction dpid dhour dt wd = Inr wd' \<longrightarrow>
           finalized (bucketOf dpid dhour wd') \<and> \<not> disputed (bucketOf dpid dhour wd'))
      \<and> (dq \<le> maxCountOf dpid dhour wd
            \<and> getProducer dpid (registry wd) = Inr producer
            \<and> mint (oracleAddress (productionOracle wd)) (payoutAddr producer) dhour
                 (energyWh (winnerOf dpid dhour wd)) (getClaimKey dpid dhour) (hourlyCredits wd)
                 = Inr h
            \<and> authorizedOracle (oracleAddress (productionOracle wd)) (treasury wd)
            \<and> popcount (verifierBitmap (winnerOf dpid dhour wd)) \<noteq> 0
            \<and> energyWh (winnerOf dpid dhour wd) * rewardPerWhWei (treasury wd) \<noteq> 0
            \<and> energyWh (winnerOf dpid dhour wd) * rewardPerWhWei (treasury wd) < 2 ^ 256
            \<and> rewardPool (treasury wd)
                 < energyWh (winnerOf dpid dhour wd) * rewardPerWhWei (treasury wd) \<longrightarrow>
           finalizeProduction dpid dhour dt wd = Inl InsufficientRewardPool))"
proof (intro conjI impI)
  assume "finalized (bucketOf pid hourId w')"
  then show again: "finalizeProduction pid hourId later w' = Inl ClaimAlreadyFinalized"
    by (rule finalizeProduction_refused)
  then show "transact (finalizeProduction pid hourId later) w' = (Some ClaimAlreadyFinalized, w')"
    by (simp add: transact_def)
next
  assume run: "finalizeProduction pid hourId now w = Inr w'"
    and "\<not> finalized (bucketOf pid hourId w')"
  then obtain q where "w' = disputedWorld pid hourId w"
    by (rule finalizeProduction_disputes)
  then show "disputed (bucketOf pid hourId w')"
    by (simp add: disputedWorld_views)
next
  assume run: "finalizeProduction pid hourId now w = Inr w'"
    and a: "\<not> finalized (bucketOf pid hourId w') \<and> now \<le> later"
  then obtain q where d: "deadlinePassed pid hourId now w"
    and r: "requiredOf pid hourId w = Inr q" and below: "maxCountOf pid hourId w < q"
    and w': "w' = disputedWorld pid hourId w"
    using finalizeProduction_disputes by blast
  have dis: "disputed (bucketOf pid hourId w')"
    by (simp add: w' disputedWorld_views)
  have d': "deadlinePassed pid hourId later w'"
    using d a by (simp add: deadlinePassed_def w' disputedWorld_views)
  have "requiredOf pid hourId w' = Inr q" and "maxCountOf pid hourId w' < q"
    using r below by (simp_all add: w' disputedWorld_views)
  with d' show "finalizeProduction pid hourId later w' = Inr (disputedWorld pid hourId w')"
    by (simp add: finalizeProduction_unfold)
  from dis a show "disputedWorld pid hourId w'
          = w'\<lparr>productionOracle := (productionOracle w')
               \<lparr>o_events := o_events (productionOracle w')
                  @ [ClaimDisputed (getClaimKey pid hourId) pid hourId ''No quorum reached'']\<rparr>\<rparr>"
    by (intro disputedWorld_again) simp_all
next
  assume run: "finalizeProduction pid hourId now w = Inr w'"
    and a: "\<not> finalized (bucketOf pid hourId w') \<and> now \<le> later
         \<and> setQuorumBps sender bps w' = Inr w2"
  then obtain q where d: "deadlinePassed pid hourId now w"
    and w': "w' = disputedWorld pid hourId w"
    using finalizeProduction_disputes by blast
  from a have "setQuorumBps sender bps w' = Inr w2"
    by blast
  then have w2: "w2 = w'\<lparr>productionOracle := (productionOracle w')\<lparr>quorumBps := bps\<rparr>\<rparr>"
    by (rule setQuorumBps_Inr)
  have b: "bucketOf pid hourId w2 = bucketOf pid hourId w'"
    by (simp add: w2 bucketOf_def)
  show "disputed (bucketOf pid hourId w2)"
    by (simp add: b w' disputedWorld_views)
  show "deadlinePassed pid hourId later w2"
    using d a by (simp add: deadlinePassed_def b w' disputedWorld_views)
  show "maxCountOf pid hourId w2 = maxCountOf pid hourId w'"
    by (simp add: w2 maxCountOf_def tallyOf_def)
  show "requiredOf pid hourId w2
      = quorumRequired (getSnapshotCount (snapshotId (bucketOf pid hourId w')) (registry w')) bps"
    by (simp add: w2 requiredOf_def bucketOf_def)
next
  assume a: "finalized (bucketOf cpid chour wa)
      \<and> (submitProduction spid shour swh sroot sv snow wa = Inr wb
         \<or> finalizeProduction spid shour snow wa = Inr wb
         \<or> forceFinalize ssender spid shour swh sroot snow wa = Inr wb
         \<or> setQuorumBps ssender sbps wa = Inr wb)"
  then have fin: "finalized (claimBuckets (productionOracle wa) (getClaimKey cpid chour))"
    by (simp add: bucketOf_def)
  from a consider "submitProduction spid shour swh sroot sv snow wa = Inr wb"
    | "finalizeProduction spid shour snow wa = Inr wb"
    | "forceFinalize ssender spid shour swh sroot snow wa = Inr wb"
    | "setQuorumBps ssender sbps wa = Inr wb"
    by blast
  then have "finalized (claimBuckets (productionOracle wb) (getClaimKey cpid chour))"
  proof cases
    case 1
    with fin show ?thesis by (rule finalized_stays(1))
  next
    case 2
    with fin show ?thesis by (rule finalized_stays(2))
  next
    case 3
    with fin show ?thesis by (rule finalized_stays(3))
  next
    case 4
    with fin show ?thesis by (rule finalized_stays(4))
  qed
  then show "finalized (bucketOf cpid chour wb)"
    by (simp add: bucketOf_def)
next
  assume "finalized (bucketOf cpid chour wa)"
  then show again: "finalizeProduction cpid chour t wa = Inl ClaimAlreadyFinalized"
    by (rule finalizeProduction_refused)
  then show "transact (finalizeProduction cpid chour t) wa = (Some ClaimAlreadyFinalized, wa)"
    by (simp add: transact_def)
next
  assume a: "disputed (bucketOf dpid dhour wd) \<and> deadlinePassed dpid dhour dt wd
        \<and> requiredOf dpid dhour wd = Inr dq"
    and below: "maxCountOf dpid dhour wd < dq"
  then show "finalizeProduction dpid dhour dt wd = Inr (disputedWorld dpid dhour wd)"
    by (simp add: finalizeProduction_unfold)
  from a show "disputedWorld dpid dhour wd
          = wd\<lparr>productionOracle := (productionOracle wd)
               \<lparr>o_events := o_events (productionOracle wd)
                  @ [ClaimDisputed (getClaimKey dpid dhour) dpid dhour ''No quorum reached'']\<rparr>\<rparr>"
    by (intro disputedWorld_again) (simp_all add: deadlinePassed_def)
next
  assume a: "disputed (bucketOf dpid dhour wd) \<and> deadlinePassed dpid dhour dt wd
        \<and> requiredOf dpid dhour wd = Inr dq"
    and b: "dq \<le> maxCountOf dpid dhour wd \<and> finalizeProduction dpid dhour dt wd = Inr wd'"
  then have "bucketOf dpid dhour wd'
           = finalizedBucket (bucketOf dpid dhour wd) (energyWh (winnerOf dpid dhour wd))
               (vs_evidenceRoot (winnerOf dpid dhour wd)) (verifierBitmap (winnerOf dpid dhour wd))"
    by (intro finalizeProduction_quorum) blast+
  then show "finalized (bucketOf dpid dhour wd')" and "\<not> disputed (bucketOf dpid dhour wd')"
    by simp_all
next
  assume a: "disputed (bucketOf dpid dhour wd) \<and> deadlinePassed dpid dhour dt wd
        \<and> requiredOf dpid dhour wd = Inr dq"
    and b: "dq \<le> maxCountOf dpid dhour wd
            \<and> getProducer dpid (registry wd) = Inr producer
            \<and> mint (oracleAddress (productionOracle wd)) (payoutAddr producer) dhour
                 (energyWh (winnerOf dpid dhour wd)) (getClaimKey dpid dhour) (hourlyCredits wd)
                 = Inr h
            \<and> authorizedOracle (oracleAddress (productionOracle wd)) (treasury wd)
            \<and> popcount (verifierBitmap (winnerOf dpid dhour wd)) \<noteq> 0
            \<and> energyWh (winnerOf dpid dhour wd) * rewardPerWhWei (treasury wd) \<noteq> 0
            \<and> energyWh (winnerOf dpid dhour wd) * rewardPerWhWei (treasury wd) < 2 ^ 256
            \<and> rewardPool (treasury wd)
                 < energyWh (winnerOf dpid dhour wd) * rewardPerWhWei (treasury wd)"
  from a have "deadlinePassed dpid dhour dt wd" and "requiredOf dpid dhour wd = Inr dq"
    by blast+
  then show "finalizeProduction dpid dhour dt wd = Inl InsufficientRewardPool"
    using b by (intro finalizeProduction_pool [where producer = producer and h = h]) blast+
qed


lemma requorum_eval:
  "setQuorumBps 1 5000 (disputedWorld 42 500000 oneSubmission) = Inr requorumWorld"
  "disputed (bucketOf 42 500000 requorumWorld)"
  "deadlinePassed 42 500000 6000 requorumWorld"
  "requiredOf 42 500000 requorumWorld = Inr 1"
  "maxCountOf 42 500000 requorumWorld = 1"
  "disputed (bucketOf 42 500000 requorumFunded)"
  "deadlinePassed 42 500000 6000 requorumFunded"
  "requiredOf 42 500000 requorumFunded = Inr 1"
  "maxCountOf 42 500000 requorumFunded = 1"
  "\<not> isl (finalizeProduction 42 500000 6000 requorumFunded)"
  "finalizeProduction 42 500000 6000 requorumWorld = Inl InsufficientRewardPool"
proof -
  have one: "popcount 1 = 1"
    by (simp add: popcount_def popcountLoop.simps)
  show "setQuorumBps 1 5000 (disputedWorld 42 500000 oneSubmission) = Inr requorumWorld"
    "disputed (bucketOf 42 500000 requorumWorld)"
    "deadlinePassed 42 500000 6000 requorumWorld"
    "requiredOf 42 500000 requorumWorld = Inr 1"
    "maxCountOf 42 500000 requorumWorld = 1"
    "disputed (bucketOf 42 500000 requorumFunded)"
    "deadlinePassed 42 500000 6000 requorumFunded"
    "requiredOf 42 500000 requorumFunded = Inr 1"
    "maxCountOf 42 500000 requorumFunded = 1"
    "\<not> isl (finalizeProduction 42 500000 6000 requorumFunded)"
    "finalizeProduction 42 500000 6000 requorumWorld = Inl InsufficientRewardPool"
    by (simp_all add: requorumFunded_def requorumWorld_def setQuorumBps_def disputedWorld_def
          oneSubmission_def scenario_defs submit_eval finalize_eval claim_views one)
qed

lemma requorum_pool:
  "\<not> isl (getProducer 42 (registry requorumWorld))"
  "payoutAddr (projr (getProducer 42 (registry requorumWorld))) = 1000"
  "oracleAddress (productionOracle requorumWorld) = 500"
  "energyWh (winnerOf 42 500000 requorumWorld) = 5000"
  "hourlyCredits requorumWorld = hourlyCredits0"
  "\<not> isl (mint 500 1000 500000 5000 (42, 500000) hourlyCredits0)"
  "authorizedOracle 500 (treasury requorumWorld)"
  "popcount (verifierBitmap (winnerOf 42 500000 requorumWorld)) = 1"
  "rewardPerWhWei (treasury requorumWorld) = 10 ^ 12"
  "rewardPool (treasury requorumWorld) = 0"
proof -
  have one: "popcount 1 = 1"
    by (simp add: popcount_def popcountLoop.simps)
  show "\<not> isl (getProducer 42 (registry requorumWorld))"
    "payoutAddr (projr (getProducer 42 (registry requorumWorld))) = 1000"
    "oracleAddress (productionOracle requorumWorld) = 500"
    "energyWh (winnerOf 42 500000 requorumWorld) = 5000"
    "hourlyCredits requorumWorld = hourlyCredits0"
    "\<not> isl (mint 500 1000 500000 5000 (42, 500000) hourlyCredits0)"
    "authorizedOracle 500 (treasury requorumWorld)"
    "popcount (verifierBitmap (winnerOf 42 500000 requorumWorld)) = 1"
    "rewardPerWhWei (treasury requorumWorld) = 10 ^ 12"
    "rewardPool (treasury requorumWorld) = 0"
    by (simp_all add: requorumWorld_def setQuorumBps_def disputedWorld_def
          oneSubmission_def scenario_defs submit_eval finalize_eval claim_views one)
qed

lemma forcedWorld_owner:
  "\<not> isl (setQuorumBps 1 7000 forcedWorld)"
  by (simp add: setQuorumBps_def forcedWorld_def oneSubmission_def scenario_defs submit_eval
        finalize_eval disputedWorld_def claim_views)


theorem second_finalize_witness:
  "\<not> isl (finalizeProduction 42 500000 5000 fundedSubmissions)
   \<and> finalizeProduction 42 500000 6000 (projr (finalizeProduction 42 500000 5000 fundedSubmissions))
       = Inl ClaimAlreadyFinalized
   \<and> finalizeProduction 42 500000 5000 oneSubmission = Inr (disputedWorld 42 500000 oneSubmission)
   \<and> disputed (bucketOf 42 500000 (disputedWorld 42 500000 oneSubmission))
   \<and> finalizeProduction 42 500000 6000 (disputedWorld 42 500000 oneSubmission)
       = Inr (disputedWorld 42 500000 (disputedWorld 42 500000 oneSubmission))
   \<and> setQuorumBps 1 5000 (disputedWorld 42 500000 oneSubmission) = Inr requorumWorld
   \<and> disputed (bucketOf 42 500000 requorumWorld)
   \<and> deadlinePassed 42 500000 6000 requorumWorld
   \<and> maxCountOf 42 500000 requorumWorld = 1
   \<and> requiredOf 42 500000 requorumWorld = Inr 1
   \<and> finalizeProduction 42 500000 6000 requorumWorld = Inl InsufficientRewardPool
   \<and> \<not> isl (finalizeProduction 42 500000 6000 requorumFunded)
   \<and> finalized (bucketOf 42 500000 (projr (finalizeProduction 42 500000 6000 requorumFunded)))
   \<and> finalized (bucketOf 42 500000 forcedWorld)
   \<and> \<not> isl (setQuorumBps 1 7000 forcedWorld)
   \<and> finalized (bucketOf 42 500000 (projr (setQuorumBps 1 7000 forcedWorld)))
   \<and> finalizeProduction 42 500000 7000 forcedWorld = Inl ClaimAlreadyFinalized"
proof -
  obtain wf where runf: "finalizeProduction 42 500000 5000 fundedSubmissions = Inr wf"
    using fundedSubmissions_views(1)
    by (cases "finalizeProduction 42 500000 5000 fundedSubmissions") auto
  have finf: "finalized (bucketOf 42 500000 wf)"
    using fundedSubmissions_views(2) by (simp add: runf)
  from second_finalize
      [where pid = 42 and hourId = 500000 and now = 5000 and w = fundedSubmissions
        and w' = wf and later = 6000 and sender = 0 and bps = 0 and ?w2.0 = world0
        and cpid = 0 and chour = 0 and wa = world0 and spid = 0 and shour = 0
        and swh = 0 and sroot = 0 and sv = 0 and snow = 0 and wb = world0
        and ssender = 0 and sbps = 0 and t = 0 and dpid = 0 and dhour = 0
        and wd = world0 and dt = 0 and dq = 0 and wd' = world0
        and producer = noProducer and h = hourlyCredits0] runf finf
  have again: "finalizeProduction 42 500000 6000 wf = Inl ClaimAlreadyFinalized"
    by blast
  let ?d = "disputedWorld 42 500000 oneSubmission"
  have open1: "\<not> finalized (bucketOf 42 500000 ?d)" and time: "(5000 :: nat) \<le> 6000"
    by (simp_all add: disputedWorld_views)
  note inst = second_finalize
      [where pid = 42 and hourId = 500000 and now = 5000 and w = oneSubmission
        and w' = "disputedWorld 42 500000 oneSubmission" and later = 6000
        and sender = 1 and bps = 5000 and ?w2.0 = requorumWorld and cpid = 0
        and chour = 0 and wa = world0 and spid = 0 and shour = 0 and swh = 0
        and sroot = 0 and sv = 0 and snow = 0 and wb = world0 and ssender = 0
        and sbps = 0 and t = 0 and dpid = 0 and dhour = 0 and wd = world0 and dt = 0
        and dq = 0 and wd' = world0 and producer = noProducer and h = hourlyCredits0]
  from inst forced_eval(2) open1 time
  have dis: "disputed (bucketOf 42 500000 ?d)"
    and twice: "finalizeProduction 42 500000 6000 ?d = Inr (disputedWorld 42 500000 ?d)"
    by blast+
  from inst forced_eval(2) open1 time requorum_eval(1)
  have still: "disputed (bucketOf 42 500000 requorumWorld)"
    and passed: "deadlinePassed 42 500000 6000 requorumWorld"
    and votes: "maxCountOf 42 500000 requorumWorld = maxCountOf 42 500000 ?d"
    by blast+
  have votes1: "maxCountOf 42 500000 ?d = 1"
    using requorum_eval(5) votes by simp
  have enough: "(1 :: nat) \<le> maxCountOf 42 500000 requorumWorld"
    by (simp add: requorum_eval(5))
  obtain producer where prod: "getProducer 42 (registry requorumWorld) = Inr producer"
    and payout: "payoutAddr producer = 1000"
    using requorum_pool(1,2) by (cases "getProducer 42 (registry requorumWorld)") auto
  obtain h where "mint 500 1000 500000 5000 (42, 500000) hourlyCredits0 = Inr h"
    using requorum_pool(6) by (cases "mint 500 1000 500000 5000 (42, 500000) hourlyCredits0") auto
  then have minted: "mint (oracleAddress (productionOracle requorumWorld)) (payoutAddr producer)
      500000 (energyWh (winnerOf 42 500000 requorumWorld)) (getClaimKey 42 500000)
      (hourlyCredits requorumWorld) = Inr h"
    by (simp add: requorum_pool(3,4,5) payout getClaimKey_def)
  have auth: "authorizedOracle (oracleAddress (productionOracle requorumWorld))
      (treasury requorumWorld)"
    using requorum_pool(7) by (simp add: requorum_pool(3))
  have bits: "popcount (verifierBitmap (winnerOf 42 500000 requorumWorld)) \<noteq> 0"
    by (simp add: requorum_pool(8))
  have reward: "energyWh (winnerOf 42 500000 requorumWorld) * rewardPerWhWei (treasury requorumWorld)
        \<noteq> 0"
      "energyWh (winnerOf 42 500000 requorumWorld) * rewardPerWhWei (treasury requorumWorld)
        < 2 ^ 256"
      "rewardPool (treasury requorumWorld)
        < energyWh (winnerOf 42 500000 requorumWorld) * rewardPerWhWei (treasury requorumWorld)"
    by (simp_all add: requorum_pool(4,9,10))
  from second_finalize
      [where pid = 0 and hourId = 0 and now = 0 and w = world0 and w' = world0
        and later = 0 and sender = 0 and bps = 0 and ?w2.0 = world0 and cpid = 0
        and chour = 0 and wa = world0 and spid = 0 and shour = 0 and swh = 0
        and sroot = 0 and sv = 0 and snow = 0 and wb = world0 and ssender = 0
        and sbps = 0 and t = 0 and dpid = 42 and dhour = 500000 and wd = requorumWorld
        and dt = 6000 and dq = 1 and wd' = world0 and producer = producer and h = h]
    still passed requorum_eval(4) enough prod minted auth bits reward
  have empty: "finalizeProduction 42 500000 6000 requorumWorld = Inl InsufficientRewardPool"
    by blast
  obtain wg where rung: "finalizeProduction 42 500000 6000 requorumFunded = Inr wg"
    using requorum_eval(10)
    by (cases "finalizeProduction 42 500000 6000 requorumFunded") auto
  have enough': "(1 :: nat) \<le> maxCountOf 42 500000 requorumFunded"
    by (simp add: requorum_eval(9))
  from second_finalize
      [where pid = 0 and hourId = 0 and now = 0 and w = world0 and w' = world0
        and later = 0 and sender = 0 and bps = 0 and ?w2.0 = world0 and cpid = 0
        and chour = 0 and wa = world0 and spid = 0 and shour = 0 and swh = 0
        and sroot = 0 and sv = 0 and snow = 0 and wb = world0 and ssender = 0
        and sbps = 0 and t = 0 and dpid = 42 and dhour = 500000 and wd = requorumFunded
        and dt = 6000 and dq = 1 and wd' = wg and producer = noProducer
        and h = hourlyCredits0]
    requorum_eval(6,7,8) enough' rung
  have paid: "finalized (bucketOf 42 500000 wg)"
    by blast
  have below: "maxCountOf 42 500000 ?d < 2"
    by (simp add: votes1)
  have "requiredOf 42 500000 oneSubmission = Inr 2"
    and "deadline (bucketOf 42 500000 oneSubmission) = 4600"
    and "\<not> finalized (bucketOf 42 500000 oneSubmission)"
    by (simp_all add: oneSubmission_def scenario_defs submit_eval finalize_eval claim_views)
  then have req2: "requiredOf 42 500000 ?d = Inr 2"
    and passed2: "deadlinePassed 42 500000 6000 ?d"
    by (simp_all add: deadlinePassed_def disputedWorld_views)
  from second_finalize
      [where pid = 0 and hourId = 0 and now = 0 and w = world0 and w' = world0
        and later = 0 and sender = 0 and bps = 0 and ?w2.0 = world0 and cpid = 0
        and chour = 0 and wa = world0 and spid = 0 and shour = 0 and swh = 0
        and sroot = 0 and sv = 0 and snow = 0 and wb = world0 and ssender = 0
        and sbps = 0 and t = 0 and dpid = 42 and dhour = 500000
        and wd = "disputedWorld 42 500000 oneSubmission" and dt = 6000 and dq = 2
        and wd' = world0 and producer = noProducer and h = hourlyCredits0]
    dis passed2 req2 below
  have "finalizeProduction 42 500000 6000 ?d = Inr (disputedWorld 42 500000 ?d)"
    by blast
  obtain wq where runq: "setQuorumBps 1 7000 forcedWorld = Inr wq"
    using forcedWorld_owner by (cases "setQuorumBps 1 7000 forcedWorld") auto
  note inst' = second_finalize
      [where pid = 0 and hourId = 0 and now = 0 and w = world0 and w' = world0
        and later = 0 and sender = 0 and bps = 0 and ?w2.0 = world0 and cpid = 42
        and chour = 500000 and wa = forcedWorld and spid = 0 and shour = 0 and swh = 0
        and sroot = 0 and sv = 0 and snow = 0 and wb = wq and ssender = 1
        and sbps = 7000 and t = 7000 and dpid = 0 and dhour = 0 and wd = world0
        and dt = 0 and dq = 0 and wd' = world0 and producer = noProducer
        and h = hourlyCredits0]
  from inst' forcedWorld_views(1) runq
  have kept: "finalized (bucketOf 42 500000 wq)"
    by blast
  from inst' forcedWorld_views(1)
  have refused: "finalizeProduction 42 500000 7000 forcedWorld = Inl ClaimAlreadyFinalized"
    by blast
  from again forced_eval(2) dis twice requorum_eval(1) still passed empty paid kept refused
    forcedWorld_views(1)
  show ?thesis
    unfolding runf rung runq
    by (simp add: requorum_eval(4,5))
qed

text \<open>
  The claim as stated (a second call fails) does not hold for a claim that the first call left
  disputed: with one submission out of two verifiers the first call returns with the claim
  disputed, and so does the second.
\<close>

theorem second_finalize_counterexample:
  "finalizeProduction 42 500000 5000 oneSubmission = Inr (disputedWorld 42 500000 oneSubmission)
   \<and> \<not> isl (finalizeProduction 42 500000 6000 (disputedWorld 42 500000 oneSubmission))
   \<and> fst (transact (finalizeProduction 42 500000 6000) (disputedWorld 42 500000 oneSubmission))
       = None"
  by (simp add: transact_def oneSubmission_def scenario_defs submit_eval finalize_eval
        disputedWorld_def bucketOf_def)

section \<open>Treasury: slashing once\<close>


lemma countFault_step:
  assumes "countFault v ft w = Inr w1"
  shows "slashBps (treasury w1) = slashBps (treasury w)"
    and "faultThreshold (treasury w1) = faultThreshold (treasury w)"
    and "slashingDisabled (treasury w1) = slashingDisabled (treasury w)"
    and "isSlashed (treasury w1)
           = (if slashDue v w then (isSlashed (treasury w))(v := True) else isSlashed (treasury w))"
    and "stake (r_verifiers (registry w1) u)
           = (if slashDue v w \<and> u = v
              then stake (r_verifiers (registry w) v) - slashAmountOf v w
              else stake (r_verifiers (registry w) u))"
    and "rewardPool (treasury w1)
           = rewardPool (treasury w) + (if slashDue v w then slashAmountOf v w else 0)"
    and "u \<noteq> v \<Longrightarrow> slashDue u w1 = slashDue u w"
    and "u \<noteq> v \<or> \<not> slashDue v w \<Longrightarrow> slashAmountOf u w1 = slashAmountOf u w"
proof -
  from assms
  have "slashBps (treasury w1) = slashBps (treasury w)
      \<and> faultThreshold (treasury w1) = faultThreshold (treasury w)
      \<and> slashingDisabled (treasury w1) = slashingDisabled (treasury w)
      \<and> isSlashed (treasury w1)
           = (if slashDue v w then (isSlashed (treasury w))(v := True) else isSlashed (treasury w))
      \<and> stake (r_verifiers (registry w1) u)
           = (if slashDue v w \<and> u = v
              then stake (r_verifiers (registry w) v) - slashAmountOf v w
              else stake (r_verifiers (registry w) u))
      \<and> rewardPool (treasury w1)
           = rewardPool (treasury w) + (if slashDue v w then slashAmountOf v w else 0)
      \<and> (u \<noteq> v \<longrightarrow> slashDue u w1 = slashDue u w)
      \<and> (u \<noteq> v \<or> \<not> slashDue v w \<longrightarrow> slashAmountOf u w1 = slashAmountOf u w)"
  proof (cases rule: countFault_cases)
    case slash
    have "u \<noteq> v \<longrightarrow> slashDue u w1 = slashDue u w"
      by (simp add: slash(2) slashDue_def)
    moreover have "u \<noteq> v \<longrightarrow> slashAmountOf u w1 = slashAmountOf u w"
      by (simp add: slash(2) slashAmountOf_def)
    ultimately show ?thesis
      using slash(1) by (simp add: slash(2))
  next
    case count
    have "u \<noteq> v \<longrightarrow> slashDue u w1 = slashDue u w"
      by (simp add: count(2) slashDue_def)
    moreover have "slashAmountOf u w1 = slashAmountOf u w"
      by (simp add: count(2))
    ultimately show ?thesis
      using count(1) by (simp add: count(2))
  qed
  then show "slashBps (treasury w1) = slashBps (treasury w)"
    and "faultThreshold (treasury w1) = faultThreshold (treasury w)"
    and "slashingDisabled (treasury w1) = slashingDisabled (treasury w)"
    and "isSlashed (treasury w1)
           = (if slashDue v w then (isSlashed (treasury w))(v := True) else isSlashed (treasury w))"
    and "stake (r_verifiers (registry w1) u)
           = (if slashDue v w \<and> u = v
              then stake (r_verifiers (registry w) v) - slashAmountOf v w
              else stake (r_verifiers (registry w) u))"
    and "rewardPool (treasury w1)
           = rewardPool (treasury w) + (if slashDue v w then slashAmountOf v w else 0)"
    and "u \<noteq> v \<Longrightarrow> slashDue u w1 = slashDue u w"
    and "u \<noteq> v \<or> \<not> slashDue v w \<Longrightarrow> slashAmountOf u w1 = slashAmountOf u w"
    by blast+
qed


lemma recordFaultsLoop_slashes:
  assumes "recordFaultsLoop i vs bm ft w = Inr w'"
  shows "slashBps (treasury w') = slashBps (treasury w)
       \<and> faultThreshold (treasury w') = faultThreshold (treasury w)
       \<and> slashingDisabled (treasury w') = slashingDisabled (treasury w)
       \<and> (\<forall>u. isSlashed (treasury w) u \<longrightarrow> isSlashed (treasury w') u)
       \<and> (\<forall>u. stake (r_verifiers (registry w') u)
                = (if isSlashed (treasury w') u \<and> \<not> isSlashed (treasury w) u
                   then stake (r_verifiers (registry w) u) - slashAmountOf u w
                   else stake (r_verifiers (registry w) u)))
       \<and> finite {u. isSlashed (treasury w') u \<and> \<not> isSlashed (treasury w) u}
       \<and> rewardPool (treasury w')
           = rewardPool (treasury w)
             + (\<Sum>u | isSlashed (treasury w') u \<and> \<not> isSlashed (treasury w) u. slashAmountOf u w)
       \<and> (\<forall>k. i \<le> k \<and> k < length vs \<and> k < 16 \<and> bit bm k \<and> slashDue (vs ! k) w
              \<longrightarrow> isSlashed (treasury w') (vs ! k))"
  using assms
proof (induction i vs bm ft w rule: recordFaultsLoop.induct)
  case (1 i vs bm ft w)
  show ?case
  proof (cases "i < length vs \<and> i < 16")
    case False
    with "1.prems" have "w' = w"
      by (subst (asm) recordFaultsLoop.simps) auto
    with False show ?thesis
      by auto
  next
    case inrange: True
    show ?thesis
    proof (cases "bm AND push_bit i 1 \<noteq> 0")
      case False
      with inrange "1.prems" have l: "recordFaultsLoop (i + 1) vs bm ft w = Inr w'"
        by (subst (asm) recordFaultsLoop.simps) simp
      note IH = "1.IH"(2) [OF inrange False l]
      from False have nobit: "\<not> bit bm i"
        by (simp add: bit_test)
      have "isSlashed (treasury w') (vs ! k)"
        if "i \<le> k \<and> k < length vs \<and> k < 16 \<and> bit bm k \<and> slashDue (vs ! k) w" for k
      proof -
        from that nobit have "k \<noteq> i"
          by auto
        with that have "i + 1 \<le> k \<and> k < length vs \<and> k < 16 \<and> bit bm k \<and> slashDue (vs ! k) w"
          by simp
        with IH show ?thesis
          by blast
      qed
      with IH show ?thesis
        by blast
    next
      case True
      with inrange "1.prems" obtain w1 where c: "countFault (vs ! i) ft w = Inr w1"
        and l: "recordFaultsLoop (i + 1) vs bm ft w1 = Inr w'"
        by (subst (asm) recordFaultsLoop.simps) (simp split: sum.splits)
      let ?v = "vs ! i"
      note IH = "1.IH"(1) [OF inrange True c l]
      note st = countFault_step [OF c]
      from IH have par: "slashBps (treasury w') = slashBps (treasury w1)"
            "faultThreshold (treasury w') = faultThreshold (treasury w1)"
            "slashingDisabled (treasury w') = slashingDisabled (treasury w1)"
        and mono1: "\<And>u. isSlashed (treasury w1) u \<Longrightarrow> isSlashed (treasury w') u"
        and stake1: "\<And>u. stake (r_verifiers (registry w') u)
                = (if isSlashed (treasury w') u \<and> \<not> isSlashed (treasury w1) u
                   then stake (r_verifiers (registry w1) u) - slashAmountOf u w1
                   else stake (r_verifiers (registry w1) u))"
        and fin1: "finite {u. isSlashed (treasury w') u \<and> \<not> isSlashed (treasury w1) u}"
        and pool1: "rewardPool (treasury w')
           = rewardPool (treasury w1)
             + (\<Sum>u | isSlashed (treasury w') u \<and> \<not> isSlashed (treasury w1) u. slashAmountOf u w1)"
        and due1: "\<And>k. i + 1 \<le> k \<and> k < length vs \<and> k < 16 \<and> bit bm k \<and> slashDue (vs ! k) w1
              \<Longrightarrow> isSlashed (treasury w') (vs ! k)"
        by blast+
      have params: "slashBps (treasury w') = slashBps (treasury w)
          \<and> faultThreshold (treasury w') = faultThreshold (treasury w)
          \<and> slashingDisabled (treasury w') = slashingDisabled (treasury w)"
        by (simp add: par st(1-3))
      show ?thesis
      proof (cases "slashDue ?v w")
        case due: True
        then have nS: "\<not> isSlashed (treasury w) ?v"
          by (simp add: slashDue_def)
        have S1: "isSlashed (treasury w1) = (isSlashed (treasury w))(?v := True)"
          using st(4) due by simp
        have Sv: "isSlashed (treasury w') ?v"
          by (rule mono1) (simp add: S1)
        have mono: "\<forall>u. isSlashed (treasury w) u \<longrightarrow> isSlashed (treasury w') u"
          using mono1 by (simp add: S1)
        have N: "{u. isSlashed (treasury w') u \<and> \<not> isSlashed (treasury w) u}
            = insert ?v {u. isSlashed (treasury w') u \<and> \<not> isSlashed (treasury w1) u}"
          using Sv nS by (auto simp: S1)
        have vN1: "?v \<notin> {u. isSlashed (treasury w') u \<and> \<not> isSlashed (treasury w1) u}"
          by (simp add: S1)
        have stakes: "\<forall>u. stake (r_verifiers (registry w') u)
                = (if isSlashed (treasury w') u \<and> \<not> isSlashed (treasury w) u
                   then stake (r_verifiers (registry w) u) - slashAmountOf u w
                   else stake (r_verifiers (registry w) u))"
        proof
          fix u
          show "stake (r_verifiers (registry w') u)
                = (if isSlashed (treasury w') u \<and> \<not> isSlashed (treasury w) u
                   then stake (r_verifiers (registry w) u) - slashAmountOf u w
                   else stake (r_verifiers (registry w) u))"
          proof (cases "u = ?v")
            case True
            with stake1 [of u] st(5) [of u] due Sv nS show ?thesis
              by (simp add: S1)
          next
            case False
            with stake1 [of u] st(5) [of u] st(8) [of u] show ?thesis
              by (simp add: S1)
          qed
        qed
        have same: "(\<Sum>u | isSlashed (treasury w') u \<and> \<not> isSlashed (treasury w1) u. slashAmountOf u w1)
            = (\<Sum>u | isSlashed (treasury w') u \<and> \<not> isSlashed (treasury w1) u. slashAmountOf u w)"
        proof (rule sum.cong)
          fix u
          assume "u \<in> {u. isSlashed (treasury w') u \<and> \<not> isSlashed (treasury w1) u}"
          with vN1 have "u \<noteq> ?v"
            by auto
          then show "slashAmountOf u w1 = slashAmountOf u w"
            by (simp add: st(8))
        qed simp
        have pool: "rewardPool (treasury w')
           = rewardPool (treasury w)
             + (\<Sum>u | isSlashed (treasury w') u \<and> \<not> isSlashed (treasury w) u. slashAmountOf u w)"
          unfolding N using fin1 vN1 pool1 st(6) due by (simp add: same)
        have fin: "finite {u. isSlashed (treasury w') u \<and> \<not> isSlashed (treasury w) u}"
          unfolding N using fin1 by simp
        have "isSlashed (treasury w') (vs ! k)"
          if "i \<le> k \<and> k < length vs \<and> k < 16 \<and> bit bm k \<and> slashDue (vs ! k) w" for k
        proof (cases "vs ! k = ?v")
          case True
          with Sv show ?thesis
            by simp
        next
          case False
          then have "k \<noteq> i"
            by auto
          moreover from False have "slashDue (vs ! k) w1 = slashDue (vs ! k) w"
            by (rule st(7))
          ultimately have "i + 1 \<le> k \<and> k < length vs \<and> k < 16 \<and> bit bm k
              \<and> slashDue (vs ! k) w1"
            using that by simp
          then show ?thesis
            by (rule due1)
        qed
        with params mono stakes fin pool show ?thesis
          by blast
      next
        case notdue: False
        have S1: "isSlashed (treasury w1) = isSlashed (treasury w)"
          using st(4) notdue by simp
        have amt: "slashAmountOf u w1 = slashAmountOf u w" for u
          using notdue by (simp add: st(8))
        have mono: "\<forall>u. isSlashed (treasury w) u \<longrightarrow> isSlashed (treasury w') u"
          using mono1 by (simp add: S1)
        have stakes: "\<forall>u. stake (r_verifiers (registry w') u)
                = (if isSlashed (treasury w') u \<and> \<not> isSlashed (treasury w) u
                   then stake (r_verifiers (registry w) u) - slashAmountOf u w
                   else stake (r_verifiers (registry w) u))"
        proof
          fix u
          from stake1 [of u] st(5) [of u] notdue
          show "stake (r_verifiers (registry w') u)
                = (if isSlashed (treasury w') u \<and> \<not> isSlashed (treasury w) u
                   then stake (r_verifiers (registry w) u) - slashAmountOf u w
                   else stake (r_verifiers (registry w) u))"
            by (simp add: S1 amt)
        qed
        have fin: "finite {u. isSlashed (treasury w') u \<and> \<not> isSlashed (treasury w) u}"
          using fin1 by (simp add: S1)
        have pool: "rewardPool (treasury w')
           = rewardPool (treasury w)
             + (\<Sum>u | isSlashed (treasury w') u \<and> \<not> isSlashed (treasury w) u. slashAmountOf u w)"
          using pool1 st(6) notdue by (simp add: S1 amt)
        have "isSlashed (treasury w') (vs ! k)"
          if "i \<le> k \<and> k < length vs \<and> k < 16 \<and> bit bm k \<and> slashDue (vs ! k) w" for k
        proof -
          from that notdue have other: "vs ! k \<noteq> ?v"
            by auto
          then have "k \<noteq> i"
            by auto
          moreover from other have "slashDue (vs ! k) w1 = slashDue (vs ! k) w"
            by (rule st(7))
          ultimately have "i + 1 \<le> k \<and> k < length vs \<and> k < 16 \<and> bit bm k
              \<and> slashDue (vs ! k) w1"
            using that by simp
          then show ?thesis
            by (rule due1)
        qed
        with params mono stakes fin pool show ?thesis
          by blast
      qed
    qed
  qed
qed


lemma recordFaults_slashes:
  assumes "recordFaults sender bm sid ft w = Inr w'"
  shows "rewardPool (treasury w')
           = rewardPool (treasury w)
             + (\<Sum>u | isSlashed (treasury w') u \<and> \<not> isSlashed (treasury w) u. slashAmountOf u w)"
    and "stake (r_verifiers (registry w') u)
           = (if isSlashed (treasury w') u \<and> \<not> isSlashed (treasury w) u
              then stake (r_verifiers (registry w) u) - slashAmountOf u w
              else stake (r_verifiers (registry w) u))"
    and "i < length (getSnapshotVerifiers sid (registry w)) \<and> i < 16 \<and> bit bm i
           \<and> slashDue (getSnapshotVerifiers sid (registry w) ! i) w
         \<Longrightarrow> isSlashed (treasury w') (getSnapshotVerifiers sid (registry w) ! i)
           \<and> \<not> isSlashed (treasury w) (getSnapshotVerifiers sid (registry w) ! i)"
proof -
  let ?vs = "getSnapshotVerifiers sid (registry w)"
  have "rewardPool (treasury w')
           = rewardPool (treasury w)
             + (\<Sum>u | isSlashed (treasury w') u \<and> \<not> isSlashed (treasury w) u. slashAmountOf u w)
      \<and> stake (r_verifiers (registry w') u)
           = (if isSlashed (treasury w') u \<and> \<not> isSlashed (treasury w) u
              then stake (r_verifiers (registry w) u) - slashAmountOf u w
              else stake (r_verifiers (registry w) u))
      \<and> (i < length ?vs \<and> i < 16 \<and> bit bm i \<and> slashDue (?vs ! i) w
           \<longrightarrow> isSlashed (treasury w') (?vs ! i))"
  proof (cases "bm = 0")
    case True
    with assms have "w' = w"
      by (simp add: recordFaults_def split: if_splits)
    with True show ?thesis
      by simp
  next
    case False
    with assms have "recordFaultsLoop 0 ?vs bm ft w = Inr w'"
      by (simp add: recordFaults_def split: if_splits)
    from recordFaultsLoop_slashes [OF this] show ?thesis
      by (auto simp del: split_paired_All)
  qed
  then show "rewardPool (treasury w')
           = rewardPool (treasury w)
             + (\<Sum>u | isSlashed (treasury w') u \<and> \<not> isSlashed (treasury w) u. slashAmountOf u w)"
    and "stake (r_verifiers (registry w') u)
           = (if isSlashed (treasury w') u \<and> \<not> isSlashed (treasury w) u
              then stake (r_verifiers (registry w) u) - slashAmountOf u w
              else stake (r_verifiers (registry w) u))"
    and "i < length ?vs \<and> i < 16 \<and> bit bm i \<and> slashDue (?vs ! i) w
         \<Longrightarrow> isSlashed (treasury w') (?vs ! i) \<and> \<not> isSlashed (treasury w) (?vs ! i)"
    by (auto simp: slashDue_def)
qed

lemma slashAmount_within:
  assumes "slashBps (treasury w) \<le> 10000"
  shows "slashAmountOf v w \<le> stake (getVerifier v (registry w))"
proof -
  from assms have "stake (r_verifiers (registry w) v) * slashBps (treasury w)
               \<le> stake (r_verifiers (registry w) v) * 10000"
    by (rule mult_le_mono2)
  then show ?thesis
    unfolding slashAmountOf_def getVerifier_def
    by (metis div_le_mono nonzero_mult_div_cancel_right zero_neq_numeral)
qed


text \<open>
  C6 (as amended). When the next fault of \<open>v\<close> reaches the threshold while slashing is enabled
  and \<open>v\<close> is not yet slashed (\<open>slashDue\<close>), the call that records the fault and returns slashes
  \<open>v\<close>: a \<open>recordFault\<close> for \<open>v\<close>, or a \<open>recordFaults\<close> whose bitmap flags a position below 16 of
  the snapshot at which \<open>v\<close> stands. The slash marks \<open>v\<close> slashed and takes
  \<open>slashAmount = stake * slashBps / 10000\<close> of the current stake from the Registry stake, but
  never more than the stake itself (the stake becomes 0 when the amount exceeds it, which
  needs \<open>slashBps > 10000\<close>), and adds the whole \<open>slashAmount\<close> to the reward pool. Over a
  \<open>recordFaults\<close> call the stakes that change are those of the verifiers that the call slashes,
  each reduced once by its own amount, and the pool grows by the sum of these amounts. A
  \<open>slash\<close> call for a verifier at the threshold that is not slashed does the same while slashing
  is enabled. \<open>recordFault\<close> returns whenever none of its checked operations overflows. Once \<open>v\<close>
  is slashed, a later \<open>recordFault\<close> or \<open>recordFaults\<close> leaves the stake of \<open>v\<close> as it is, and
  \<open>slash\<close> fails.
\<close>

theorem slash_exactly_once:
  "(slashDue v w \<and> authorizedOracle sender (treasury w) \<and> recordFault sender v ft w = Inr w'
      \<longrightarrow> isSlashed (treasury w') v
        \<and> stake (getVerifier v (registry w')) =
            (if slashAmountOf v w \<le> stake (getVerifier v (registry w))
             then stake (getVerifier v (registry w)) - slashAmountOf v w else 0)
        \<and> rewardPool (treasury w') = rewardPool (treasury w) + slashAmountOf v w
        \<and> (slashBps (treasury w) \<le> 10000 \<longrightarrow> slashAmountOf v w \<le> stake (getVerifier v (registry w))))
   \<and> (slashDue v w \<and> authorizedOracle sender (treasury w)
        \<and> verifierFaults (treasury w) v + 1 < 2 ^ 256 \<and> slashFits v w
      \<longrightarrow> recordFault sender v ft w = Inr (slashed v (faultCounted v ft w)))
   \<and> (recordFaults rsender rbm rsid rft wr = Inr wr'
        \<and> i < length (getSnapshotVerifiers rsid (registry wr)) \<and> i < 16 \<and> bit rbm i
        \<and> slashDue (getSnapshotVerifiers rsid (registry wr) ! i) wr
      \<longrightarrow> isSlashed (treasury wr') (getSnapshotVerifiers rsid (registry wr) ! i)
        \<and> stake (getVerifier (getSnapshotVerifiers rsid (registry wr) ! i) (registry wr')) =
            (if slashAmountOf (getSnapshotVerifiers rsid (registry wr) ! i) wr
                  \<le> stake (getVerifier (getSnapshotVerifiers rsid (registry wr) ! i) (registry wr))
             then stake (getVerifier (getSnapshotVerifiers rsid (registry wr) ! i) (registry wr))
                    - slashAmountOf (getSnapshotVerifiers rsid (registry wr) ! i) wr
             else 0))
   \<and> (recordFaults rsender rbm rsid rft wr = Inr wr'
      \<longrightarrow> rewardPool (treasury wr')
            = rewardPool (treasury wr)
              + (\<Sum>x | isSlashed (treasury wr') x \<and> \<not> isSlashed (treasury wr) x.
                   slashAmountOf x wr)
        \<and> stake (getVerifier u (registry wr')) =
            (if isSlashed (treasury wr') u \<and> \<not> isSlashed (treasury wr) u
             then (if slashAmountOf u wr \<le> stake (getVerifier u (registry wr))
                   then stake (getVerifier u (registry wr)) - slashAmountOf u wr else 0)
             else stake (getVerifier u (registry wr))))
   \<and> (faultThreshold (treasury ws) \<le> verifierFaults (treasury ws) sv
        \<and> \<not> isSlashed (treasury ws) sv \<and> \<not> slashingDisabled (treasury ws)
        \<and> slash sv ws = Inr ws'
      \<longrightarrow> ws' = slashed sv ws \<and> isSlashed (treasury ws') sv
        \<and> stake (getVerifier sv (registry ws')) =
            (if slashAmountOf sv ws \<le> stake (getVerifier sv (registry ws))
             then stake (getVerifier sv (registry ws)) - slashAmountOf sv ws else 0)
        \<and> rewardPool (treasury ws') = rewardPool (treasury ws) + slashAmountOf sv ws)
   \<and> (isSlashed (treasury w) v \<and> recordFault sender v ft w = Inr w'
      \<longrightarrow> isSlashed (treasury w') v \<and> registry w' = registry w
        \<and> rewardPool (treasury w') = rewardPool (treasury w))
   \<and> (isSlashed (treasury w) v \<and> recordFaults sender bm sid ft w = Inr w''
      \<longrightarrow> isSlashed (treasury w'') v
        \<and> stake (getVerifier v (registry w'')) = stake (getVerifier v (registry w)))
   \<and> (isSlashed (treasury w) v \<longrightarrow> isl (slash v w))"
proof (intro conjI impI)
  assume a: "slashDue v w \<and> authorizedOracle sender (treasury w) \<and> recordFault sender v ft w = Inr w'"
  then have "countFault v ft w = Inr w'"
    by (simp add: recordFault_def split: if_splits)
  then have w': "w' = slashed v (faultCounted v ft w)"
    using a by (cases rule: countFault_cases) simp_all
  show "isSlashed (treasury w') v"
    by (simp add: w')
  show "stake (getVerifier v (registry w')) =
          (if slashAmountOf v w \<le> stake (getVerifier v (registry w))
           then stake (getVerifier v (registry w)) - slashAmountOf v w else 0)"
    by (simp add: w' getVerifier_def)
  show "rewardPool (treasury w') = rewardPool (treasury w) + slashAmountOf v w"
    by (simp add: w')
next
  assume "slashBps (treasury w) \<le> 10000"
  then show "slashAmountOf v w \<le> stake (getVerifier v (registry w))"
    by (rule slashAmount_within)
next
  assume "slashDue v w \<and> authorizedOracle sender (treasury w)
        \<and> verifierFaults (treasury w) v + 1 < 2 ^ 256 \<and> slashFits v w"
  then show "recordFault sender v ft w = Inr (slashed v (faultCounted v ft w))"
    by (simp add: recordFault_def countFault_eq slashInternal_eq)
next
  let ?u = "getSnapshotVerifiers rsid (registry wr) ! i"
  assume a: "recordFaults rsender rbm rsid rft wr = Inr wr'
        \<and> i < length (getSnapshotVerifiers rsid (registry wr)) \<and> i < 16 \<and> bit rbm i
        \<and> slashDue (getSnapshotVerifiers rsid (registry wr) ! i) wr"
  then have run: "recordFaults rsender rbm rsid rft wr = Inr wr'"
    and flagged: "i < length (getSnapshotVerifiers rsid (registry wr)) \<and> i < 16 \<and> bit rbm i
        \<and> slashDue (getSnapshotVerifiers rsid (registry wr) ! i) wr"
    by blast+
  from recordFaults_slashes(3) [OF run flagged]
  have s: "isSlashed (treasury wr') ?u" and n: "\<not> isSlashed (treasury wr) ?u"
    by blast+
  from s show "isSlashed (treasury wr') ?u" .
  from recordFaults_slashes(2) [OF run, of ?u] s n
  show "stake (getVerifier ?u (registry wr')) =
          (if slashAmountOf ?u wr \<le> stake (getVerifier ?u (registry wr))
           then stake (getVerifier ?u (registry wr)) - slashAmountOf ?u wr else 0)"
    by (simp add: getVerifier_def)
next
  assume run: "recordFaults rsender rbm rsid rft wr = Inr wr'"
  show "rewardPool (treasury wr')
            = rewardPool (treasury wr)
              + (\<Sum>x | isSlashed (treasury wr') x \<and> \<not> isSlashed (treasury wr) x.
                   slashAmountOf x wr)"
    by (rule recordFaults_slashes(1) [OF run])
  from recordFaults_slashes(2) [OF run, of u]
  show "stake (getVerifier u (registry wr')) =
            (if isSlashed (treasury wr') u \<and> \<not> isSlashed (treasury wr) u
             then (if slashAmountOf u wr \<le> stake (getVerifier u (registry wr))
                   then stake (getVerifier u (registry wr)) - slashAmountOf u wr else 0)
             else stake (getVerifier u (registry wr)))"
    by (simp add: getVerifier_def)
next
  assume a: "faultThreshold (treasury ws) \<le> verifierFaults (treasury ws) sv
        \<and> \<not> isSlashed (treasury ws) sv \<and> \<not> slashingDisabled (treasury ws)
        \<and> slash sv ws = Inr ws'"
  then have "slashInternal sv ws = Inr ws'"
    by (simp add: slash_def Let_def split: if_splits)
  then show ws': "ws' = slashed sv ws"
    by (simp add: slashInternal_eq split: if_splits)
  show "isSlashed (treasury ws') sv"
    by (simp add: ws')
  show "stake (getVerifier sv (registry ws')) =
          (if slashAmountOf sv ws \<le> stake (getVerifier sv (registry ws))
           then stake (getVerifier sv (registry ws)) - slashAmountOf sv ws else 0)"
    by (simp add: ws' getVerifier_def)
  show "rewardPool (treasury ws') = rewardPool (treasury ws) + slashAmountOf sv ws"
    by (simp add: ws')
next
  assume a: "isSlashed (treasury w) v \<and> recordFault sender v ft w = Inr w'"
  then have c: "countFault v ft w = Inr w'"
    by (simp add: recordFault_def split: if_splits)
  from a have "\<not> slashDue v w"
    by (simp add: slashDue_def)
  with c have w': "w' = faultCounted v ft w"
    by (cases rule: countFault_cases) simp_all
  show "isSlashed (treasury w') v" using a by (simp add: w')
  show "registry w' = registry w" by (simp add: w')
  show "rewardPool (treasury w') = rewardPool (treasury w)" by (simp add: w')
next
  assume a: "isSlashed (treasury w) v \<and> recordFaults sender bm sid ft w = Inr w''"
  show "isSlashed (treasury w'') v"
  proof (cases "bm = 0")
    case True
    with a show ?thesis by (auto simp: recordFaults_def split: if_splits)
  next
    case False
    with a have "recordFaultsLoop 0 (getSnapshotVerifiers sid (registry w)) bm ft w = Inr w''"
      by (auto simp: recordFaults_def split: if_splits)
    from recordFaultsLoop_keeps_slashed [OF this] a show ?thesis by simp
  qed
  show "stake (getVerifier v (registry w'')) = stake (getVerifier v (registry w))"
  proof (cases "bm = 0")
    case True
    with a show ?thesis by (auto simp: recordFaults_def split: if_splits)
  next
    case False
    with a have "recordFaultsLoop 0 (getSnapshotVerifiers sid (registry w)) bm ft w = Inr w''"
      by (auto simp: recordFaults_def split: if_splits)
    from recordFaultsLoop_keeps_slashed [OF this] a show ?thesis by (simp add: getVerifier_def)
  qed
next
  assume "isSlashed (treasury w) v"
  then show "isl (slash v w)"
    by (simp add: slash_def Let_def)
qed


lemmas losers_defs = losersWorld_def fundedWorld_def registry2_def activateVerifier_def
  deployment_defs createSnapshot_def checked_def Let_def sortAddresses_sort
  getSnapshotVerifiers_def

theorem slash_exactly_once_witness:
  "recordFault 500 7 WrongValue twoFaultsWorld
     = Inr (slashed 7 (faultCounted 7 WrongValue twoFaultsWorld))
   \<and> stake (getVerifier 7 (registry (slashed 7 (faultCounted 7 WrongValue twoFaultsWorld)))) = 90
   \<and> rewardPool (treasury (slashed 7 (faultCounted 7 WrongValue twoFaultsWorld))) = 10
   \<and> isl (slash 7 (slashed 7 (faultCounted 7 WrongValue twoFaultsWorld)))
   \<and> stake (getVerifier 7 (registry (faultCounted 7 WrongValue
          (slashed 7 (faultCounted 7 WrongValue twoFaultsWorld))))) = 90
   \<and> recordFaults 500 2 1 WrongValue losersWorld
       = Inr (slashed 9 (faultCounted 9 WrongValue losersWorld))
   \<and> getSnapshotVerifiers 1 (registry losersWorld) = [7, 9]
   \<and> slashDue 9 losersWorld
   \<and> isSlashed (treasury (slashed 9 (faultCounted 9 WrongValue losersWorld))) 9
   \<and> stake (getVerifier 9 (registry losersWorld)) = 100 * 10 ^ 18
   \<and> stake (getVerifier 9 (registry (slashed 9 (faultCounted 9 WrongValue losersWorld))))
       = 90 * 10 ^ 18
   \<and> stake (getVerifier 7 (registry (slashed 9 (faultCounted 9 WrongValue losersWorld))))
       = 100 * 10 ^ 18
   \<and> rewardPool (treasury losersWorld) = 0
   \<and> rewardPool (treasury (slashed 9 (faultCounted 9 WrongValue losersWorld))) = 10 * 10 ^ 18
   \<and> slash 7 dueWorld = Inr (slashed 7 dueWorld)
   \<and> stake (getVerifier 7 (registry (slashed 7 dueWorld))) = 90
   \<and> rewardPool (treasury (slashed 7 dueWorld)) = 10"
proof -
  define w1 where "w1 = slashed 7 (faultCounted 7 WrongValue twoFaultsWorld)"
  define w2 where "w2 = faultCounted 7 WrongValue w1"
  define wl where "wl = slashed 9 (faultCounted 9 WrongValue losersWorld)"
  define wd where "wd = slashed 7 dueWorld"
  have amount: "slashAmountOf 7 twoFaultsWorld = 10"
    by (simp add: slashAmountOf_def twoFaultsWorld_def stakedWorld_def deployment_defs)
  have stake0: "stake (getVerifier 7 (registry twoFaultsWorld)) = 100"
    by (simp add: getVerifier_def twoFaultsWorld_def stakedWorld_def deployment_defs)
  have pool0: "rewardPool (treasury twoFaultsWorld) = 0"
    by (simp add: twoFaultsWorld_def stakedWorld_def deployment_defs)
  have due: "slashDue 7 twoFaultsWorld"
    by (simp add: slashDue_def twoFaultsWorld_def stakedWorld_def deployment_defs)
  have auth: "authorizedOracle 500 (treasury twoFaultsWorld)"
    by (simp add: authorizedOracle_def twoFaultsWorld_def stakedWorld_def deployment_defs)
  have small: "verifierFaults (treasury twoFaultsWorld) 7 + 1 < 2 ^ 256"
    by (simp add: twoFaultsWorld_def stakedWorld_def deployment_defs)
  have fits: "slashFits 7 twoFaultsWorld"
    by (simp add: slashFits_def slashAmountOf_def twoFaultsWorld_def stakedWorld_def deployment_defs)
  note first = slash_exactly_once
      [where v = 7 and w = twoFaultsWorld and sender = 500 and ft = WrongValue
        and w' = w1 and rsender = 0 and rbm = 0 and rsid = 0 and rft = WrongValue
        and wr = world0 and wr' = world0 and i = 0 and u = 0 and ws = world0 and sv = 0
        and ws' = world0 and bm = 0 and sid = 0 and w'' = w1]
  from first due auth small fits have run: "recordFault 500 7 WrongValue twoFaultsWorld = Inr w1"
    by (simp add: w1_def)
  with first due auth amount stake0 pool0
  have after: "isSlashed (treasury w1) 7" "stake (getVerifier 7 (registry w1)) = 90"
    "rewardPool (treasury w1) = 10"
    by simp_all
  have faults0: "verifierFaults (treasury twoFaultsWorld) 7 = 2"
    by (simp add: twoFaultsWorld_def stakedWorld_def deployment_defs)
  have auth1: "authorizedOracle 500 (treasury w1)"
    using auth by (simp add: authorizedOracle_def w1_def)
  have faults1: "verifierFaults (treasury w1) 7 = 3"
    using faults0 by (simp add: w1_def)
  have again: "recordFault 500 7 WrongValue w1 = Inr w2"
    using after(1) auth1 faults1
    by (simp add: recordFault_def countFault_eq slashDue_def w2_def)
  note later = slash_exactly_once
      [where v = 7 and w = w1 and sender = 500 and ft = WrongValue and w' = w2
        and rsender = 0 and rbm = 0 and rsid = 0 and rft = WrongValue and wr = world0
        and wr' = world0 and i = 0 and u = 0 and ws = world0 and sv = 0
        and ws' = world0 and bm = 0 and sid = 0 and w'' = w1]
  from later after(1) again have "registry w2 = registry w1" and "isl (slash 7 w1)"
    by simp_all
  with run after have part1: "recordFault 500 7 WrongValue twoFaultsWorld = Inr w1
      \<and> stake (getVerifier 7 (registry w1)) = 90 \<and> rewardPool (treasury w1) = 10
      \<and> isl (slash 7 w1) \<and> stake (getVerifier 7 (registry w2)) = 90"
    by simp
  have snap: "getSnapshotVerifiers 1 (registry losersWorld) = [7, 9]"
    by (simp add: losers_defs)
  have duel: "slashDue 9 losersWorld"
    by (simp add: slashDue_def losers_defs)
  have stakel: "stake (getVerifier 9 (registry losersWorld)) = 100 * 10 ^ 18"
    "stake (getVerifier 7 (registry losersWorld)) = 100 * 10 ^ 18"
    by (simp_all add: getVerifier_def losers_defs)
  have amountl: "slashAmountOf 9 losersWorld = 10 * 10 ^ 18"
    using stakel(1) by (simp add: slashAmountOf_def getVerifier_def losersWorld_def treasury0_def)
  have pooll: "rewardPool (treasury losersWorld) = 0"
    by (simp add: losersWorld_def treasury0_def)
  have clean: "isSlashed (treasury losersWorld) = (\<lambda>x. False)"
    by (simp add: losersWorld_def treasury0_def)
  have snap': "getSnapshotVerifiers (Suc 0) (registry losersWorld) = [7, 9]"
    using snap by simp
  have authl: "authorizedOracle 500 (treasury losersWorld)"
    and smalll: "verifierFaults (treasury losersWorld) 9 + 1 < 2 ^ 256"
    by (simp_all add: authorizedOracle_def losersWorld_def treasury0_def)
  have fitsl: "slashFits 9 losersWorld"
    using stakel(1) amountl pooll
    by (simp add: slashFits_def getVerifier_def losersWorld_def treasury0_def)
  have runl: "recordFaults 500 2 1 WrongValue losersWorld = Inr wl"
    using duel authl smalll fitsl
    by (simp add: recordFaults_def recordFaultsLoop.simps countFault_eq slashInternal_eq
          snap snap' wl_def)
  have flagged: "1 < length (getSnapshotVerifiers 1 (registry losersWorld)) \<and> (1 :: nat) < 16
      \<and> bit (2 :: 16 word) 1 \<and> slashDue (getSnapshotVerifiers 1 (registry losersWorld) ! 1) losersWorld"
    using duel by (simp add: snap')
  note batch = slash_exactly_once
      [where v = 0 and w = world0 and sender = 0 and ft = WrongValue and w' = world0
        and rsender = 500 and rbm = 2 and rsid = 1 and rft = WrongValue
        and wr = losersWorld and wr' = wl and i = 1 and u = 7 and ws = world0
        and sv = 0 and ws' = world0 and bm = 0 and sid = 0 and w'' = world0]
  from batch runl flagged
  have marked: "isSlashed (treasury wl) (getSnapshotVerifiers 1 (registry losersWorld) ! 1)"
    and cut: "stake (getVerifier (getSnapshotVerifiers 1 (registry losersWorld) ! 1) (registry wl)) =
            (if slashAmountOf (getSnapshotVerifiers 1 (registry losersWorld) ! 1) losersWorld
                  \<le> stake (getVerifier (getSnapshotVerifiers 1 (registry losersWorld) ! 1)
                             (registry losersWorld))
             then stake (getVerifier (getSnapshotVerifiers 1 (registry losersWorld) ! 1)
                           (registry losersWorld))
                    - slashAmountOf (getSnapshotVerifiers 1 (registry losersWorld) ! 1) losersWorld
             else 0)"
    by blast+
  from batch runl
  have pool: "rewardPool (treasury wl)
            = rewardPool (treasury losersWorld)
              + (\<Sum>x | isSlashed (treasury wl) x \<and> \<not> isSlashed (treasury losersWorld) x.
                   slashAmountOf x losersWorld)"
    and other: "stake (getVerifier 7 (registry wl)) =
            (if isSlashed (treasury wl) 7 \<and> \<not> isSlashed (treasury losersWorld) 7
             then (if slashAmountOf 7 losersWorld \<le> stake (getVerifier 7 (registry losersWorld))
                   then stake (getVerifier 7 (registry losersWorld)) - slashAmountOf 7 losersWorld
                   else 0)
             else stake (getVerifier 7 (registry losersWorld)))"
    by blast+
  have new: "{x. isSlashed (treasury wl) x \<and> \<not> isSlashed (treasury losersWorld) x} = {9}"
    by (auto simp: wl_def clean)
  have not7: "\<not> isSlashed (treasury wl) 7"
    by (simp add: wl_def clean)
  from marked have m: "isSlashed (treasury wl) 9"
    by (simp add: snap')
  from cut have c: "stake (getVerifier 9 (registry wl)) = 90 * 10 ^ 18"
    by (simp add: snap' stakel amountl)
  from other not7 have o: "stake (getVerifier 7 (registry wl)) = 100 * 10 ^ 18"
    by (simp add: stakel)
  from pool have p: "rewardPool (treasury wl) = 10 * 10 ^ 18"
    by (simp add: new pooll amountl)
  have dued: "faultThreshold (treasury dueWorld) \<le> verifierFaults (treasury dueWorld) 7
      \<and> \<not> isSlashed (treasury dueWorld) 7 \<and> \<not> slashingDisabled (treasury dueWorld)"
    by (simp add: dueWorld_def treasury0_def)
  have amountd: "slashAmountOf 7 dueWorld = 10"
    and staked: "stake (getVerifier 7 (registry dueWorld)) = 100"
    and poold: "rewardPool (treasury dueWorld) = 0"
    by (simp_all add: slashAmountOf_def getVerifier_def dueWorld_def stakedWorld_def deployment_defs)
  have rund: "slash 7 dueWorld = Inr wd"
    using dued amountd
    by (simp add: slash_def slashInternal_eq slashFits_def Let_def wd_def dueWorld_def
          stakedWorld_def deployment_defs)
  note manual = slash_exactly_once
      [where v = 0 and w = world0 and sender = 0 and ft = WrongValue and w' = world0
        and rsender = 0 and rbm = 0 and rsid = 0 and rft = WrongValue and wr = world0
        and wr' = world0 and i = 0 and u = 0 and ws = dueWorld and sv = 7 and ws' = wd
        and bm = 0 and sid = 0 and w'' = world0]
  from manual dued rund
  have "stake (getVerifier 7 (registry wd)) =
            (if slashAmountOf 7 dueWorld \<le> stake (getVerifier 7 (registry dueWorld))
             then stake (getVerifier 7 (registry dueWorld)) - slashAmountOf 7 dueWorld else 0)"
    and "rewardPool (treasury wd) = rewardPool (treasury dueWorld) + slashAmountOf 7 dueWorld"
    by blast+
  then have d: "stake (getVerifier 7 (registry wd)) = 90" "rewardPool (treasury wd) = 10"
    by (simp_all add: amountd staked poold)
  from part1 runl snap duel m stakel(1) c o pooll p rund d show ?thesis
    unfolding w1_def w2_def wl_def wd_def by simp
qed

text \<open>
  The claim as stated (the stake is reduced by \<open>slashAmount\<close>) fails once \<open>slashBps\<close> exceeds
  10000: with a stake of 100 and \<open>slashBps = 20000\<close> the amount is 200, the stake falls by 100
  to 0, and the reward pool still grows by 200.
\<close>

theorem slash_amount_counterexample:
  "\<not> isl (recordFault 500 7 WrongValue overSlashWorld)
   \<and> slashDue 7 overSlashWorld
   \<and> slashAmountOf 7 overSlashWorld = 200
   \<and> stake (getVerifier 7 (registry overSlashWorld)) = 100
   \<and> stake (getVerifier 7 (registry (projr (recordFault 500 7 WrongValue overSlashWorld)))) = 0
   \<and> rewardPool (treasury overSlashWorld) = 0
   \<and> rewardPool (treasury (projr (recordFault 500 7 WrongValue overSlashWorld))) = 200"
proof -
  have amount: "slashAmountOf 7 overSlashWorld = 200"
    by (simp add: slashAmountOf_def overSlashWorld_def deployment_defs)
  have due: "slashDue 7 overSlashWorld"
    by (simp add: slashDue_def overSlashWorld_def deployment_defs)
  have fits: "slashFits 7 overSlashWorld"
    by (simp add: slashFits_def slashAmountOf_def overSlashWorld_def deployment_defs)
  have small: "verifierFaults (treasury overSlashWorld) 7 + 1 < 2 ^ 256"
    by (simp add: overSlashWorld_def deployment_defs)
  have auth: "authorizedOracle 500 (treasury overSlashWorld)"
    by (simp add: authorizedOracle_def overSlashWorld_def deployment_defs)
  have run: "recordFault 500 7 WrongValue overSlashWorld
               = Inr (slashed 7 (faultCounted 7 WrongValue overSlashWorld))"
    using due fits small auth by (simp add: recordFault_def countFault_eq slashInternal_eq)
  have stake0: "stake (getVerifier 7 (registry overSlashWorld)) = 100"
    by (simp add: getVerifier_def overSlashWorld_def deployment_defs)
  have pool0: "rewardPool (treasury overSlashWorld) = 0"
    by (simp add: overSlashWorld_def deployment_defs)
  show ?thesis
    using amount due stake0 pool0 by (simp add: run getVerifier_def)
qed

section \<open>The steps between the oracle calls\<close>

text \<open>
  The steps of the other functions of the model are steps of the last kind.
\<close>

lemma reachable_steps:
  assumes "reachable w"
  shows "setQuorumBps sender bps w = Inr w' \<Longrightarrow> reachable w'"
    and "createSnapshot sender ck now (registry w) = Inr (sid, r') \<Longrightarrow> reachable (w\<lparr>registry := r'\<rparr>)"
    and "activateVerifier sender (registry w) = Inr r' \<Longrightarrow> reachable (w\<lparr>registry := r'\<rparr>)"
    and "reduceStake v amount (registry w) = Inr r' \<Longrightarrow> reachable (w\<lparr>registry := r'\<rparr>)"
    and "recordFault sender v ft w = Inr w' \<Longrightarrow> reachable w'"
    and "recordFaults sender bm sid ft w = Inr w' \<Longrightarrow> reachable w'"
    and "distributeRewards sender bm sid wh w = Inr w' \<Longrightarrow> reachable w'"
    and "slash v w = Inr w' \<Longrightarrow> reachable w'"
proof -
  {
    assume "setQuorumBps sender bps w = Inr w'"
    then have w': "w' = w\<lparr>productionOracle := (productionOracle w)\<lparr>quorumBps := bps\<rparr>\<rparr>"
      by (rule setQuorumBps_Inr)
    from assms show "reachable w'"
      unfolding w' by (rule reachable.other) simp_all
  }
  {
    assume "createSnapshot sender ck now (registry w) = Inr (sid, r')"
    note c = createSnapshot_Inr [OF this]
    from assms show "reachable (w\<lparr>registry := r'\<rparr>)"
      by (rule reachable.other) (simp_all add: c)
  }
  {
    assume "activateVerifier sender (registry w) = Inr r'"
    then have "snapshots r' = snapshots (registry w)"
      and "nextSnapshotId r' = nextSnapshotId (registry w)"
      by (auto simp: activateVerifier_def Let_def split: if_splits)
    then show "reachable (w\<lparr>registry := r'\<rparr>)"
      by (intro reachable.other [OF assms]) simp_all
  }
  {
    assume "reduceStake v amount (registry w) = Inr r'"
    then have "snapshots r' = snapshots (registry w)"
      and "nextSnapshotId r' = nextSnapshotId (registry w)"
      by (auto simp: reduceStake_Inr)
    then show "reachable (w\<lparr>registry := r'\<rparr>)"
      by (intro reachable.other [OF assms]) simp_all
  }
  {
    assume "recordFault sender v ft w = Inr w'"
    then have "countFault v ft w = Inr w'"
      by (simp add: recordFault_def split: if_splits)
    from countFault_frame [OF this] show "reachable w'"
      by (intro reachable.other [OF assms]) simp_all
  }
  {
    assume "recordFaults sender bm sid ft w = Inr w'"
    from recordFaults_frame [OF this] show "reachable w'"
      by (intro reachable.other [OF assms]) simp_all
  }
  {
    assume "distributeRewards sender bm sid wh w = Inr w'"
    from distributeRewards_frame [OF this] show "reachable w'"
      by (intro reachable.other [OF assms]) simp_all
  }
  {
    assume "slash v w = Inr w'"
    then have "w' = w \<or> w' = slashed v w"
      by (auto simp: slash_def Let_def slashInternal_eq split: if_splits)
    then show "reachable w'"
      by (intro reachable.other [OF assms]) auto
  }
qed

end
